theory Spec2Isabelle
  imports
    Main
    "HOL-Library.AList"
    "HOL-Library.Char_ord"
    "HOL-Library.List_Lexorder"
    "HOL-Library.Product_Lexorder"
begin

section \<open>Trusted Advisor limit polling: the model of \<^verbatim>\<open>awslimitchecker/trustedadvisor.py\<close>\<close>

text \<open>
  The class \<^verbatim>\<open>TrustedAdvisor\<close> keeps one attribute, \<^verbatim>\<open>self.conn\<close>, talks to
  three collaborators (the \<^verbatim>\<open>boto\<close> Support API, the module's logger and the service
  objects of the registry it is handed) and raises Python exceptions. The model makes
  all of this explicit: a state record that every method takes and returns, a
  chronological list of the calls made to the collaborators, and results of type
  \<open>py_exc + 'a\<close>, paired with the state reached when the value is returned or the
  exception leaves the method.
\<close>

subsection \<open>Exceptions, log records and observable events\<close>

text \<open>
  \<open>ValueError\<close> stands for the class \<^verbatim>\<open>ValueError\<close> and its subclasses, which is what
  the clause \<^verbatim>\<open>except ValueError\<close> catches; \<open>OtherError\<close> is any exception class outside it
  that is not one of the two named ones. The string is the exception's message.
\<close>

datatype py_exc =
    AttributeError string
  | KeyError string
  | ValueError string
  | OtherError string

fun is_ValueError :: "py_exc \<Rightarrow> bool" where
  "is_ValueError (ValueError m) = True"
| "is_ValueError e = False"

datatype level = DEBUG | INFO | WARNING | CRITICAL

text \<open>
  An event is one call to a collaborator: a record handed to the module's logger, a call
  of \<^verbatim>\<open>boto.connect_support()\<close>, or a call
  \<^verbatim>\<open>services[svc_name]._set_ta_limit(lim_name, value)\<close> together with how it ended
  (\<open>None\<close>: it returned; \<open>Some e\<close>: it raised \<open>e\<close>).
\<close>

datatype event =
    Log level string
  | ConnectSupport
  | SetTaLimit string string int "py_exc option"

subsection \<open>The Support API as the code reads it\<close>

text \<open>One element of \<^verbatim>\<open>describe_trusted_advisor_checks('en')['checks']\<close>.\<close>

record ta_check =
  check_category :: string
  check_name :: string
  check_id :: string
  check_metadata :: "string list"

text \<open>One element of \<^verbatim>\<open>checks['result']['flaggedResources']\<close>.\<close>

record flagged_resource =
  row_region :: string
  row_metadata :: "string list"

text \<open>The dictionary under \<^verbatim>\<open>['result']\<close> of a check result.\<close>

record check_result =
  result_timestamp :: string
  flaggedResources :: "flagged_resource list"

text \<open>
  The connection object: \<^verbatim>\<open>conn.region.name\<close> and the two API calls, each of which
  either returns or raises (a transport error is an exception of \<^verbatim>\<open>boto\<close>).
\<close>

record support_conn =
  region_name :: string
  describe_trusted_advisor_checks :: "py_exc + ta_check list"
  describe_trusted_advisor_check_result :: "string \<Rightarrow> py_exc + check_result"

text \<open>
  What the module imports or is handed and does not define itself:
  \<^verbatim>\<open>boto.connect_support()\<close>, \<^verbatim>\<open>dateutil.parser.parse\<close> (its result rendered as the
  string the log line shows), the builtin \<^verbatim>\<open>int\<close> applied to a string (what it accepts
  depends on the version of the interpreter) and the method \<^verbatim>\<open>_set_ta_limit\<close> of a
  service object, which takes the object's state, a limit name and a value and gives
  back the object's new state and the exception it raised, if any.
\<close>

record 'svc env =
  boto_connect_support :: "py_exc + support_conn"
  parser_parse :: "string \<Rightarrow> py_exc + string"
  builtin_int :: "string \<Rightarrow> py_exc + int"
  set_ta_limit :: "'svc \<Rightarrow> string \<Rightarrow> int \<Rightarrow> py_exc option \<times> 'svc"

text \<open>
  The state: \<^verbatim>\<open>self.conn\<close> (\<open>None\<close> is Python's \<^verbatim>\<open>None\<close>), the events so far, oldest
  first, and the store of service objects. The registry \<^verbatim>\<open>services\<close> maps a service name
  to the address of its object, so that two names may share one object.
\<close>

record 'svc state =
  conn :: "support_conn option"
  events :: "event list"
  heap :: "nat \<Rightarrow> 'svc"

type_synonym 'svc registry = "string \<Rightarrow> nat option"

type_synonym ('svc, 'a) meth = "'svc state \<Rightarrow> (py_exc + 'a) \<times> 'svc state"

definition emit :: "event \<Rightarrow> 'svc state \<Rightarrow> 'svc state" where
  "emit e s = s\<lparr>events := events s @ [e]\<rparr>"

definition logger :: "level \<Rightarrow> string \<Rightarrow> 'svc state \<Rightarrow> 'svc state" where
  "logger lvl msg s = emit (Log lvl msg) s"

text \<open>
  A string between single quotes, as the format \<^verbatim>\<open>'%s'\<close> prints it, and the message
  of the \<^verbatim>\<open>AttributeError\<close> raised by an attribute access on \<^verbatim>\<open>None\<close>.
\<close>

definition quoted :: "string \<Rightarrow> string" where
  "quoted s = [CHR 0x27] @ s @ [CHR 0x27]"

definition none_attr_msg :: "string \<Rightarrow> string" where
  "none_attr_msg attr = quoted ''NoneType'' @ '' object has no attribute '' @ quoted attr"

subsection \<open>Python dictionaries\<close>

text \<open>
  A dictionary is an association list with distinct keys, in insertion order:
  \<open>map_of\<close> reads it, \<open>AList.update\<close> is \<^verbatim>\<open>d[k] = v\<close> (a present key keeps its
  place, a new one goes to the end), \<open>keys\<close> is \<^verbatim>\<open>d.keys()\<close>. \<open>py_dict\<close> is
  \<^verbatim>\<open>dict(pairs)\<close>: the pairs are stored one after the other, so a later pair overwrites
  an earlier one with the same key.
\<close>

type_synonym ('k, 'v) dict = "('k \<times> 'v) list"

definition keys :: "('k, 'v) dict \<Rightarrow> 'k list" where
  "keys d = map fst d"

definition py_dict :: "('k \<times> 'v) list \<Rightarrow> ('k, 'v) dict" where
  "py_dict ps = foldl (\<lambda>d (k, v). AList.update k v d) [] ps"

subsection \<open>\<^verbatim>\<open>connect\<close> (lines 54-58)\<close>

definition connect :: "'svc env \<Rightarrow> ('svc, unit) meth" where
  "connect env s =
     (case conn s of
        None \<Rightarrow>
          (let s1 = logger DEBUG ''Connecting to Support API (TrustedAdvisor)'' s;
               s2 = emit ConnectSupport s1
           in case boto_connect_support env of
                Inl e \<Rightarrow> (Inl e, s2)
              | Inr c \<Rightarrow> (Inr (), logger INFO ''Connected to Support API'' (s2\<lparr>conn := Some c\<rparr>)))
      | Some c \<Rightarrow> (Inr (), s))"

text \<open>Two calls in a row, \<^verbatim>\<open>ta.connect(); ta.connect()\<close>: an exception of the first ends the run.\<close>

definition connect_twice :: "'svc env \<Rightarrow> ('svc, unit) meth" where
  "connect_twice env s =
     (case connect env s of
        (Inl e, s1) \<Rightarrow> (Inl e, s1)
      | (Inr u, s1) \<Rightarrow> connect env s1)"

text \<open>The number of calls of \<^verbatim>\<open>boto.connect_support()\<close> made so far.\<close>

definition connect_calls :: "'svc state \<Rightarrow> nat" where
  "connect_calls s = length (filter (\<lambda>e. e = ConnectSupport) (events s))"

subsection \<open>\<^verbatim>\<open>_get_limit_check_id\<close> (lines 112-135)\<close>

text \<open>The loop over \<^verbatim>\<open>checks\<close>, with its \<^verbatim>\<open>return\<close> from inside and the fall-through after it.\<close>

fun find_limit_check ::
  "ta_check list \<Rightarrow> 'svc state \<Rightarrow> (py_exc + (string \<times> string list) option) \<times> 'svc state"
where
  "find_limit_check [] s =
     (Inr None,
      logger DEBUG
        (''Unable to find check with category 'performance' and name 'Service Limits'' @ [CHR 0x27] @ ''.'') s)"
| "find_limit_check (check # checks) s =
     (if check_category check = ''performance'' \<and> check_name check = ''Service Limits''
      then (Inr (Some (check_id check, check_metadata check)),
            logger DEBUG (''Found TA check; id='' @ check_id check) s)
      else find_limit_check checks s)"

definition get_limit_check_id :: "('svc, (string \<times> string list) option) meth" where
  "get_limit_check_id s =
     (let s1 = logger DEBUG ''Querying Trusted Advisor checks'' s
      in case conn s1 of
           None \<Rightarrow>
             (Inl (AttributeError (none_attr_msg ''describe_trusted_advisor_checks'')), s1)
         | Some c \<Rightarrow>
             (case describe_trusted_advisor_checks c of
                Inl e \<Rightarrow> (Inl e, s1)
              | Inr checks \<Rightarrow> find_limit_check checks s1))"

subsection \<open>\<^verbatim>\<open>_poll\<close> (lines 74-110)\<close>

text \<open>
  The loop of lines 102-108 over the flagged resources, \<open>res\<close> being the dictionary
  built so far. Line 108 evaluates its right-hand side first, then
  \<^verbatim>\<open>res[data['Service']]\<close>, then \<^verbatim>\<open>data['Limit Name']\<close>; a missing key raises
  \<^verbatim>\<open>KeyError\<close>. \<open>to_int\<close> is the builtin \<^verbatim>\<open>int\<close>.
\<close>

fun poll_rows ::
  "(string \<Rightarrow> py_exc + int) \<Rightarrow> string \<Rightarrow> string list \<Rightarrow> flagged_resource list \<Rightarrow>
   (string, (string, int) dict) dict \<Rightarrow> py_exc + (string, (string, int) dict) dict"
where
  "poll_rows to_int region metadata [] res = Inr res"
| "poll_rows to_int region metadata (check # checks) res =
     (if row_region check \<noteq> region then poll_rows to_int region metadata checks res
      else
        let data = py_dict (zip metadata (row_metadata check)) in
        case map_of data ''Service'' of
          None \<Rightarrow> Inl (KeyError ''Service'')
        | Some svc \<Rightarrow>
            let res1 = (if svc \<notin> set (keys res) then AList.update svc [] res else res) in
            (case map_of data ''Limit Amount'' of
               None \<Rightarrow> Inl (KeyError ''Limit Amount'')
             | Some amount \<Rightarrow>
                 (case to_int amount of
                    Inl e \<Rightarrow> Inl e
                  | Inr n \<Rightarrow>
                      (case map_of res1 svc of
                         None \<Rightarrow> Inl (KeyError svc)
                       | Some limits \<Rightarrow>
                           (case map_of data ''Limit Name'' of
                              None \<Rightarrow> Inl (KeyError ''Limit Name'')
                            | Some lim \<Rightarrow>
                                poll_rows to_int region metadata checks
                                  (AList.update svc (AList.update lim n limits) res1))))))"

text \<open>
  \<^verbatim>\<open>_poll\<close> returns \<^verbatim>\<open>None\<close> (line 94, a bare \<^verbatim>\<open>return\<close>) or the dictionary: an
  \<open>option\<close>.
\<close>

definition poll :: "'svc env \<Rightarrow> ('svc, (string, (string, int) dict) dict option) meth" where
  "poll env s =
     (let s1 = logger INFO ''Beginning TrustedAdvisor poll'' s
      in case get_limit_check_id s1 of
           (Inl e, s2) \<Rightarrow> (Inl e, s2)
         | (Inr None, s2) \<Rightarrow>
             (Inr None,
              logger CRITICAL
                (''Unable to find 'Service Limits' Trusted Advisor ''
                 @ ''check; not using Trusted Advisor data.'') s2)
         | (Inr (Some (cid, metadata)), s2) \<Rightarrow>
             (case conn s2 of
                None \<Rightarrow> (Inl (AttributeError (none_attr_msg ''region'')), s2)
              | Some c \<Rightarrow>
                  let region = region_name c in
                  (case describe_trusted_advisor_check_result c cid of
                     Inl e \<Rightarrow> (Inl e, s2)
                   | Inr checks \<Rightarrow>
                       (case parser_parse env (result_timestamp checks) of
                          Inl e \<Rightarrow> (Inl e, s2)
                        | Inr check_datetime \<Rightarrow>
                            let s3 = logger DEBUG
                                       (''Got TrustedAdvisor data for check '' @ cid
                                        @ '' as of '' @ check_datetime) s2
                            in (case poll_rows (builtin_int env) region metadata
                                       (flaggedResources checks) [] of
                                  Inl e \<Rightarrow> (Inl e, s3)
                                | Inr res \<Rightarrow>
                                    (Inr (Some res),
                                     logger INFO ''Finished TrustedAdvisor poll'' s3))))))"

subsection \<open>\<^verbatim>\<open>_update_services\<close> (lines 137-164)\<close>

text \<open>The inner loop (lines 156-163) over the sorted limit names of one service.\<close>

fun update_lims ::
  "'svc env \<Rightarrow> nat \<Rightarrow> string \<Rightarrow> (string, int) dict \<Rightarrow> string list \<Rightarrow> ('svc, unit) meth"
where
  "update_lims env service svc_name limits [] s = (Inr (), s)"
| "update_lims env service svc_name limits (lim_name # rest) s =
     (case map_of limits lim_name of
        None \<Rightarrow> (Inl (KeyError lim_name), s)
      | Some v \<Rightarrow>
          (case set_ta_limit env (heap s service) lim_name v of
             (exc, obj) \<Rightarrow>
               let s1 = emit (SetTaLimit svc_name lim_name v exc)
                          (s\<lparr>heap := (heap s)(service := obj)\<rparr>)
               in (case exc of
                     None \<Rightarrow> update_lims env service svc_name limits rest s1
                   | Some e \<Rightarrow>
                       if is_ValueError e
                       then update_lims env service svc_name limits rest
                              (logger WARNING
                                 (''TrustedAdvisor returned check results for unknown limit ''
                                  @ quoted lim_name
                                  @ '' (service '' @ svc_name @ '')'') s1)
                       else (Inl e, s1))))"

text \<open>The outer loop (lines 149-155) over the sorted service names.\<close>

fun update_svcs ::
  "'svc env \<Rightarrow> (string, (string, int) dict) dict \<Rightarrow> 'svc registry \<Rightarrow> string list \<Rightarrow>
   ('svc, unit) meth"
where
  "update_svcs env ta_results services [] s = (Inr (), s)"
| "update_svcs env ta_results services (svc_name # rest) s =
     (case map_of ta_results svc_name of
        None \<Rightarrow> (Inl (KeyError svc_name), s)
      | Some limits \<Rightarrow>
          (case services svc_name of
             None \<Rightarrow>
               update_svcs env ta_results services rest
                 (logger CRITICAL
                    (''TrustedAdvisor returned check results for unknown service ''
                     @ quoted svc_name) s)
           | Some service \<Rightarrow>
               (case update_lims env service svc_name limits (sort (keys limits)) s of
                  (Inl e, s1) \<Rightarrow> (Inl e, s1)
                | (Inr u, s1) \<Rightarrow> update_svcs env ta_results services rest s1)))"

text \<open>
  \<open>ta_results\<close> is whatever \<^verbatim>\<open>_poll\<close> returned: \<^verbatim>\<open>None.keys()\<close> raises
  \<^verbatim>\<open>AttributeError\<close>.
\<close>

definition update_services ::
  "'svc env \<Rightarrow> (string, (string, int) dict) dict option \<Rightarrow> 'svc registry \<Rightarrow> ('svc, unit) meth"
where
  "update_services env ta_results services s =
     (let s1 = logger DEBUG ''Updating TA limits on all services'' s
      in case ta_results of
           None \<Rightarrow> (Inl (AttributeError (none_attr_msg ''keys'')), s1)
         | Some ta \<Rightarrow>
             (case update_svcs env ta services (sort (keys ta)) s1 of
                (Inl e, s2) \<Rightarrow> (Inl e, s2)
              | (Inr u, s2) \<Rightarrow>
                  (Inr (), logger INFO ''Done updating TA limits on all services'' s2)))"

subsection \<open>\<^verbatim>\<open>update_limits\<close> (lines 60-72)\<close>

definition update_limits :: "'svc env \<Rightarrow> 'svc registry \<Rightarrow> ('svc, unit) meth" where
  "update_limits env services s =
     (case connect env s of
        (Inl e, s1) \<Rightarrow> (Inl e, s1)
      | (Inr u, s1) \<Rightarrow>
          (case poll env s1 of
             (Inl e, s2) \<Rightarrow> (Inl e, s2)
           | (Inr ta_results, s2) \<Rightarrow> update_services env ta_results services s2))"

section \<open>Notions of the specification and example data\<close>

text \<open>
  The selection criterion of the locator as the specification words it: category
  \<^verbatim>\<open>"performance"\<close> and name \<^verbatim>\<open>"Service Limits"\<close>, both compared exactly.
\<close>

definition service_limits_check :: "ta_check \<Rightarrow> bool" where
  "service_limits_check x =
     (check_category x = ''performance'' \<and> check_name x = ''Service Limits'')"

text \<open>
  Example data: four checks, of which the third is the first to satisfy the criterion
  (the first differs in the case of its name, the second in its category); a
  connection in region \<^verbatim>\<open>us-east-1\<close> that serves given checks and rows; a state with
  no events yet whose service objects carry no data; an environment in which every
  call succeeds. In the place of the builtin \<^verbatim>\<open>int\<close> the examples use \<open>ex_int\<close>,
  which reads a plain decimal literal, an optional sign and one to 4300 digits, to the
  integer \<^verbatim>\<open>int\<close> gives for it, and raises \<^verbatim>\<open>ValueError\<close>, with a message of its
  own, on every other string (\<^verbatim>\<open>int\<close> accepts some of those, such as a literal
  surrounded by white space). The theorems hold for every function in its place.
\<close>

definition is_digit :: "char \<Rightarrow> bool" where
  "is_digit c = (CHR ''0'' \<le> c \<and> c \<le> CHR ''9'')"

definition digit_value :: "char \<Rightarrow> int" where
  "digit_value c = int (of_char c) - 48"

definition decimal :: "string \<Rightarrow> int" where
  "decimal ds = foldl (\<lambda>acc c. 10 * acc + digit_value c) 0 ds"

definition ex_int :: "string \<Rightarrow> py_exc + int" where
  "ex_int s =
     (let signed = (s \<noteq> [] \<and> (hd s = CHR ''-'' \<or> hd s = CHR ''+''));
          ds = (if signed then tl s else s)
      in if ds \<noteq> [] \<and> length ds \<le> 4300 \<and> list_all is_digit ds
         then Inr (if signed \<and> hd s = CHR ''-'' then - decimal ds else decimal ds)
         else Inl (ValueError ''invalid literal for int()''))"

definition ex_checks :: "ta_check list" where
  "ex_checks =
     [\<lparr>check_category = ''performance'', check_name = ''service limits'',
       check_id = ''a'', check_metadata = []\<rparr>,
      \<lparr>check_category = ''security'', check_name = ''Service Limits'',
       check_id = ''b'', check_metadata = []\<rparr>,
      \<lparr>check_category = ''performance'', check_name = ''Service Limits'',
       check_id = ''c'',
       check_metadata = [''Region'', ''Service'', ''Limit Name'', ''Limit Amount'']\<rparr>,
      \<lparr>check_category = ''performance'', check_name = ''Service Limits'',
       check_id = ''d'', check_metadata = []\<rparr>]"

definition ex_conn :: "ta_check list \<Rightarrow> flagged_resource list \<Rightarrow> support_conn" where
  "ex_conn checks rows =
     \<lparr>region_name = ''us-east-1'',
      describe_trusted_advisor_checks = Inr checks,
      describe_trusted_advisor_check_result =
        (\<lambda>cid. Inr \<lparr>result_timestamp = ''2015-06-01T12:00:00Z'', flaggedResources = rows\<rparr>)\<rparr>"

definition ex_state :: "support_conn option \<Rightarrow> unit state" where
  "ex_state c = \<lparr>conn = c, events = [], heap = (\<lambda>a. ())\<rparr>"

definition ex_env :: "unit env" where
  "ex_env =
     \<lparr>boto_connect_support = Inr (ex_conn ex_checks []),
      parser_parse = (\<lambda>t. Inr t),
      builtin_int = ex_int,
      set_ta_limit = (\<lambda>obj lim v. (None, obj))\<rparr>"

text \<open>The events that a run from state \<open>s\<close> to state \<open>s'\<close> added.\<close>

definition new_events :: "'svc state \<Rightarrow> 'svc state \<Rightarrow> event list" where
  "new_events s s' = drop (length (events s)) (events s')"

text \<open>
  The rows of the session's region, and a connection whose check results hold only
  those rows: what the advisory API would return if it reported no other region.
\<close>

definition same_region_rows :: "string \<Rightarrow> flagged_resource list \<Rightarrow> flagged_resource list" where
  "same_region_rows region rows = filter (\<lambda>r. row_region r = region) rows"

definition restrict_to_region :: "support_conn \<Rightarrow> support_conn" where
  "restrict_to_region c =
     c\<lparr>describe_trusted_advisor_check_result :=
         (\<lambda>cid. case describe_trusted_advisor_check_result c cid of
                  Inl e \<Rightarrow> Inl e
                | Inr r \<Rightarrow>
                    Inr (r\<lparr>flaggedResources :=
                            same_region_rows (region_name c) (flaggedResources r)\<rparr>))\<rparr>"

text \<open>
  The field-to-value record of a row: the value list zipped positionally against the
  field-name list. Were a field name to occur twice, the value at its last position
  counts. \<open>row_entry\<close> is the projection of a row as the specification describes it:
  the \<^verbatim>\<open>Service\<close> and \<^verbatim>\<open>Limit Name\<close> values and the \<^verbatim>\<open>Limit Amount\<close> value parsed as
  an integer by \<open>to_int\<close>, or the exception when a field is missing or the amount does
  not parse.
\<close>

definition field_value :: "string list \<Rightarrow> string list \<Rightarrow> string \<Rightarrow> string option" where
  "field_value flds vals f = map_of (rev (zip flds vals)) f"

definition row_entry ::
  "(string \<Rightarrow> py_exc + int) \<Rightarrow> string list \<Rightarrow> flagged_resource \<Rightarrow>
   py_exc + (string \<times> string \<times> int)"
where
  "row_entry to_int flds r =
     (case field_value flds (row_metadata r) ''Service'' of
        None \<Rightarrow> Inl (KeyError ''Service'')
      | Some svc \<Rightarrow>
          (case field_value flds (row_metadata r) ''Limit Amount'' of
             None \<Rightarrow> Inl (KeyError ''Limit Amount'')
           | Some amount \<Rightarrow>
               (case to_int amount of
                  Inl e \<Rightarrow> Inl e
                | Inr n \<Rightarrow>
                    (case field_value flds (row_metadata r) ''Limit Name'' of
                       None \<Rightarrow> Inl (KeyError ''Limit Name'')
                     | Some lim \<Rightarrow> Inr (svc, lim, n)))))"

text \<open>
  The two-level map: reading the value of a (service, limit) pair, and storing one,
  which overwrites the value the pair had.
\<close>

definition lookup2 :: "(string, (string, int) dict) dict \<Rightarrow> string \<Rightarrow> string \<Rightarrow> int option" where
  "lookup2 res svc lim =
     (case map_of res svc of None \<Rightarrow> None | Some limits \<Rightarrow> map_of limits lim)"

definition store_limit ::
  "(string, (string, int) dict) dict \<Rightarrow> string \<Rightarrow> string \<Rightarrow> int \<Rightarrow>
   (string, (string, int) dict) dict"
where
  "store_limit res svc lim n =
     AList.update svc
       (AList.update lim n (case map_of res svc of None \<Rightarrow> [] | Some limits \<Rightarrow> limits)) res"

text \<open>
  What the specification has the poller return, read off the rows alone: the rows of
  the session's region all project (\<open>projectable\<close>), their projections in the order of
  the rows (\<open>entries\<close>), the map in which they have been stored one after the other
  (\<open>stored\<close>), and for a (service, limit) pair the value of the last entry that
  carries it (\<open>last_value\<close>).
\<close>

definition projectable ::
  "(string \<Rightarrow> py_exc + int) \<Rightarrow> string \<Rightarrow> string list \<Rightarrow> flagged_resource list \<Rightarrow> bool"
where
  "projectable to_int region flds rows =
     list_all (\<lambda>r. row_region r \<noteq> region \<or>
                   (case row_entry to_int flds r of Inl e \<Rightarrow> False | Inr t \<Rightarrow> True)) rows"

definition entries ::
  "(string \<Rightarrow> py_exc + int) \<Rightarrow> string \<Rightarrow> string list \<Rightarrow> flagged_resource list \<Rightarrow>
   (string \<times> string \<times> int) list"
where
  "entries to_int region flds rows =
     concat (map (\<lambda>r. if row_region r \<noteq> region then []
                       else (case row_entry to_int flds r of Inl e \<Rightarrow> [] | Inr t \<Rightarrow> [t])) rows)"

definition stored ::
  "(string, (string, int) dict) dict \<Rightarrow> (string \<times> string \<times> int) list \<Rightarrow>
   (string, (string, int) dict) dict"
where
  "stored res es = foldl (\<lambda>res (s, l, n). store_limit res s l n) res es"

definition last_value :: "(string \<times> string \<times> int) list \<Rightarrow> string \<Rightarrow> string \<Rightarrow> int option" where
  "last_value es svc lim = map_of (rev (map (\<lambda>(s, l, n). ((s, l), n)) es)) (svc, lim)"

text \<open>The field list of the specification's examples, and a row laid out along it.\<close>

definition ex_fields :: "string list" where
  "ex_fields = [''Region'', ''Service'', ''Limit Name'', ''Limit Amount'']"

definition ex_row :: "string \<Rightarrow> string \<Rightarrow> string \<Rightarrow> string \<Rightarrow> flagged_resource" where
  "ex_row region svc lim amount =
     \<lparr>row_region = region, row_metadata = [region, svc, lim, amount]\<rparr>"

text \<open>
  The two diagnostics of the reconciler, as the code formats them: the warning that names
  an unknown limit and its service, and the critical record that names an unknown
  service.
\<close>

definition unknown_limit_msg :: "string \<Rightarrow> string \<Rightarrow> string" where
  "unknown_limit_msg lim_name svc_name =
     ''TrustedAdvisor returned check results for unknown limit ''
     @ quoted lim_name @ '' (service '' @ svc_name @ '')''"

definition unknown_service_msg :: "string \<Rightarrow> string" where
  "unknown_service_msg svc_name =
     ''TrustedAdvisor returned check results for unknown service ''
     @ quoted svc_name"

text \<open>
  The calls of \<^verbatim>\<open>_set_ta_limit\<close> among some events, in the order they were made, as
  triples of service name, limit name and value; \<open>call_key\<close> keeps the two names.
\<close>

fun calls :: "event list \<Rightarrow> (string \<times> string \<times> int) list" where
  "calls [] = []"
| "calls (SetTaLimit svc lim v exc # evs) = (svc, lim, v) # calls evs"
| "calls (Log lvl msg # evs) = calls evs"
| "calls (ConnectSupport # evs) = calls evs"


text \<open>
  The order the specification prescribes: service names sorted, the services absent from
  the registry left out, and within each service the limit names sorted.
\<close>

definition limit_plan :: "string \<Rightarrow> (string, int) dict \<Rightarrow> string list \<Rightarrow> (string \<times> string \<times> int) list" where
  "limit_plan svc limits names =
     concat (map (\<lambda>lim. case map_of limits lim of None \<Rightarrow> [] | Some v \<Rightarrow> [(svc, lim, v)]) names)"

definition service_plan ::
  "(string, (string, int) dict) dict \<Rightarrow> 'svc registry \<Rightarrow> string list \<Rightarrow> (string \<times> string \<times> int) list"
where
  "service_plan ta services names =
     concat (map (\<lambda>svc. case map_of ta svc of
                          None \<Rightarrow> []
                        | Some limits \<Rightarrow>
                            (case services svc of
                               None \<Rightarrow> []
                             | Some a \<Rightarrow> limit_plan svc limits (sort (keys limits)))) names)"

definition plan :: "(string, (string, int) dict) dict \<Rightarrow> 'svc registry \<Rightarrow> (string \<times> string \<times> int) list" where
  "plan ta services = service_plan ta services (sort (keys ta))"

text \<open>
  What handing limits to the services does to the store: a call
  \<^verbatim>\<open>services[svc]._set_ta_limit(lim, v)\<close> replaces the receiving object by the one the
  method leaves; \<open>applied\<close> makes a list of such calls one after the other.
  \<open>accepted\<close> are the calls among some events that returned.
\<close>

definition apply_call ::
  "'svc env \<Rightarrow> 'svc registry \<Rightarrow> (nat \<Rightarrow> 'svc) \<Rightarrow> string \<times> string \<times> int \<Rightarrow> (nat \<Rightarrow> 'svc)"
where
  "apply_call env services h c =
     (case services (fst c) of
        None \<Rightarrow> h
      | Some a \<Rightarrow> h(a := snd (set_ta_limit env (h a) (fst (snd c)) (snd (snd c)))))"

definition applied ::
  "'svc env \<Rightarrow> 'svc registry \<Rightarrow> (nat \<Rightarrow> 'svc) \<Rightarrow> (string \<times> string \<times> int) list \<Rightarrow> (nat \<Rightarrow> 'svc)"
where
  "applied env services h cs = foldl (apply_call env services) h cs"

fun accepted :: "event list \<Rightarrow> (string \<times> string \<times> int) list" where
  "accepted [] = []"
| "accepted (SetTaLimit svc lim v None # evs) = (svc, lim, v) # accepted evs"
| "accepted (SetTaLimit svc lim v (Some e) # evs) = accepted evs"
| "accepted (Log lvl msg # evs) = accepted evs"
| "accepted (ConnectSupport # evs) = accepted evs"

text \<open>
  What a call \<^verbatim>\<open>_update_services(ta, services)\<close> made from state \<open>s\<close> returned or
  raised, the events it added and the store it left.
\<close>

abbreviation outcome ::
  "'svc env \<Rightarrow> (string, (string, int) dict) dict \<Rightarrow> 'svc registry \<Rightarrow> 'svc state \<Rightarrow> py_exc + unit"
where
  "outcome env ta services s \<equiv> fst (update_services env (Some ta) services s)"

abbreviation emitted ::
  "'svc env \<Rightarrow> (string, (string, int) dict) dict \<Rightarrow> 'svc registry \<Rightarrow> 'svc state \<Rightarrow> event list"
where
  "emitted env ta services s \<equiv> new_events s (snd (update_services env (Some ta) services s))"

abbreviation store ::
  "'svc env \<Rightarrow> (string, (string, int) dict) dict \<Rightarrow> 'svc registry \<Rightarrow> 'svc state \<Rightarrow> nat \<Rightarrow> 'svc"
where
  "store env ta services s \<equiv> heap (snd (update_services env (Some ta) services s))"

text \<open>
  The two loops of the reconciler as functions of the store alone, giving the result, the
  final store and the events emitted. They are proved equal to \<open>update_lims\<close> and
  \<open>update_svcs\<close> below and carry the inductions; \<open>traces\<close> ties a run of
  \<open>update_services\<close> to them.
\<close>

fun lims_run ::
  "'svc env \<Rightarrow> nat \<Rightarrow> string \<Rightarrow> (string, int) dict \<Rightarrow> string list \<Rightarrow> (nat \<Rightarrow> 'svc) \<Rightarrow>
   (py_exc + unit) \<times> (nat \<Rightarrow> 'svc) \<times> event list"
where
  "lims_run env a svc limits [] h = (Inr (), h, [])"
| "lims_run env a svc limits (lim # rest) h =
     (case map_of limits lim of
        None \<Rightarrow> (Inl (KeyError lim), h, [])
      | Some v \<Rightarrow>
          (case set_ta_limit env (h a) lim v of
             (exc, obj) \<Rightarrow>
               (case exc of
                  None \<Rightarrow>
                    (case lims_run env a svc limits rest (h(a := obj)) of
                       (r, h', evs) \<Rightarrow> (r, h', SetTaLimit svc lim v exc # evs))
                | Some e \<Rightarrow>
                    if is_ValueError e
                    then (case lims_run env a svc limits rest (h(a := obj)) of
                            (r, h', evs) \<Rightarrow>
                              (r, h', SetTaLimit svc lim v exc
                                      # Log WARNING (unknown_limit_msg lim svc) # evs))
                    else (Inl e, h(a := obj), [SetTaLimit svc lim v exc]))))"

fun svcs_run ::
  "'svc env \<Rightarrow> (string, (string, int) dict) dict \<Rightarrow> 'svc registry \<Rightarrow> string list \<Rightarrow>
   (nat \<Rightarrow> 'svc) \<Rightarrow> (py_exc + unit) \<times> (nat \<Rightarrow> 'svc) \<times> event list"
where
  "svcs_run env ta services [] h = (Inr (), h, [])"
| "svcs_run env ta services (svc # rest) h =
     (case map_of ta svc of
        None \<Rightarrow> (Inl (KeyError svc), h, [])
      | Some limits \<Rightarrow>
          (case services svc of
             None \<Rightarrow>
               (case svcs_run env ta services rest h of
                  (r, h', evs) \<Rightarrow> (r, h', Log CRITICAL (unknown_service_msg svc) # evs))
           | Some a \<Rightarrow>
               (case lims_run env a svc limits (sort (keys limits)) h of
                  (Inl e, h1, evs1) \<Rightarrow> (Inl e, h1, evs1)
                | (Inr u, h1, evs1) \<Rightarrow>
                    (case svcs_run env ta services rest h1 of
                       (r, h', evs) \<Rightarrow> (r, h', evs1 @ evs)))))"

definition traces ::
  "'svc env \<Rightarrow> (string, (string, int) dict) dict \<Rightarrow> 'svc registry \<Rightarrow> 'svc state \<Rightarrow>
   (nat \<Rightarrow> 'svc) \<Rightarrow> event list \<Rightarrow> bool"
where
  "traces env ta services s h evs \<longleftrightarrow>
     svcs_run env ta services (sort (keys ta)) (heap s) = (outcome env ta services s, h, evs) \<and>
     (\<forall>svc lim v exc. SetTaLimit svc lim v exc \<in> set (emitted env ta services s) \<longleftrightarrow>
                       SetTaLimit svc lim v exc \<in> set evs) \<and>
     (\<forall>m. Log WARNING m \<in> set (emitted env ta services s) \<longleftrightarrow> Log WARNING m \<in> set evs) \<and>
     (\<forall>m. Log CRITICAL m \<in> set (emitted env ta services s) \<longleftrightarrow> Log CRITICAL m \<in> set evs) \<and>
     calls (emitted env ta services s) = calls evs \<and>
     accepted (emitted env ta services s) = accepted evs \<and>
     store env ta services s = h"




text \<open>
  Modelled from the spec: the capability \<^verbatim>\<open>setAdvisoryLimit(limitName, value)\<close> of a
  Service (section 3), which fails with the unknown-limit error when the service does not
  recognise the name. Its code (\<^verbatim>\<open>_set_ta_limit\<close> of the service classes) is not part of
  the module. It serves as example data only; the theorems hold for every method.
\<close>

record service =
  limit_names :: "string list"
  ta_limits :: "(string, int) dict"

definition set_advisory_limit :: "service \<Rightarrow> string \<Rightarrow> int \<Rightarrow> py_exc option \<times> service" where
  "set_advisory_limit obj lim v =
     (if lim \<in> set (limit_names obj)
      then (None, obj\<lparr>ta_limits := AList.update lim v (ta_limits obj)\<rparr>)
      else (Some (ValueError (''service has no limit '' @ lim)), obj))"

text \<open>
  A second example method: it raises \<^verbatim>\<open>ValueError\<close> for a negative value, for a reason
  other than an unknown name, and an exception of another class for an unknown name.
\<close>

definition strict_set_ta_limit :: "service \<Rightarrow> string \<Rightarrow> int \<Rightarrow> py_exc option \<times> service" where
  "strict_set_ta_limit obj lim v =
     (if v < 0 then (Some (ValueError ''limit must not be negative''), obj)
      else if lim \<notin> set (limit_names obj) then (Some (OtherError ''no such limit''), obj)
      else (None, obj\<lparr>ta_limits := AList.update lim v (ta_limits obj)\<rparr>))"

text \<open>
  Example data for the reconciler: a registry of three services, a state whose service
  objects all recognise the limits \<^verbatim>\<open>Instances\<close> and \<^verbatim>\<open>Volumes\<close>, and result
  dictionaries with an unknown service, with an unknown limit, with services out of
  order (and the same entries in order), and with a negative value.
\<close>

definition ex_registry :: "service registry" where
  "ex_registry = map_of [(''EC2'', 0), (''Alpha'', 1), (''Zeta'', 2)]"

definition ex_svc_state :: "service state" where
  "ex_svc_state =
     \<lparr>conn = None, events = [],
      heap = (\<lambda>a. \<lparr>limit_names = [''Instances'', ''Volumes''], ta_limits = []\<rparr>)\<rparr>"

definition ex_svc_env :: "(service \<Rightarrow> string \<Rightarrow> int \<Rightarrow> py_exc option \<times> service) \<Rightarrow> service env" where
  "ex_svc_env f =
     \<lparr>boto_connect_support = Inr (ex_conn ex_checks []),
      parser_parse = (\<lambda>t. Inr t),
      builtin_int = ex_int,
      set_ta_limit = f\<rparr>"

definition ex_foo :: "(string, (string, int) dict) dict" where
  "ex_foo = [(''Foo'', [(''Instances'', 5)]), (''EC2'', [(''Instances'', 20)])]"

definition ex_bogus :: "(string, (string, int) dict) dict" where
  "ex_bogus = [(''EC2'', [(''Volumes'', 5), (''Bogus'', 1), (''Instances'', 20)])]"



definition ex_negative :: "(string, (string, int) dict) dict" where
  "ex_negative = [(''EC2'', [(''Volumes'', 5), (''Instances'', - 1)])]"

section \<open>Basic facts about the state\<close>

lemma emit_simps [simp]:
  "conn (emit e s) = conn s"
  "heap (emit e s) = heap s"
  "events (emit e s) = events s @ [e]"
  by (simp_all add: emit_def)

lemma logger_simps [simp]:
  "conn (logger lvl msg s) = conn s"
  "heap (logger lvl msg s) = heap s"
  "events (logger lvl msg s) = events s @ [Log lvl msg]"
  by (simp_all add: logger_def)

section \<open>The connector\<close>

lemma connect_connected: "conn s = Some c \<Longrightarrow> connect env s = (Inr (), s)"
  by (simp add: connect_def)

lemma connect_twice_once: "connect_twice env s = connect env s"
  by (cases "conn s"; cases "boto_connect_support env")
     (simp_all add: connect_twice_def connect_def)

lemma connect_calls_fresh:
  "conn s = None \<Longrightarrow> connect_calls (snd (connect env s)) = connect_calls s + 1"
  by (cases "boto_connect_support env") (simp_all add: connect_def connect_calls_def)

text \<open>
  C5 as stated fails: from a state that already holds a session, two calls of
  \<^verbatim>\<open>connect\<close> make no call of \<^verbatim>\<open>boto.connect_support()\<close> at all, not exactly one.
\<close>

theorem connect_twice_counterexample:
  "connect_calls (snd (connect_twice ex_env (ex_state (Some (ex_conn ex_checks []))))) \<noteq>
   connect_calls (ex_state (Some (ex_conn ex_checks []))) + 1"
  by (simp add: connect_twice_def connect_def connect_calls_def ex_state_def)

text \<open>
  C5, amended: \<^verbatim>\<open>connect\<close> is idempotent, two calls in a row do what one call does, in
  every state. Two calls make exactly one session-establishment call when the state
  holds no session and none when it holds one; with a session, \<^verbatim>\<open>connect\<close> changes
  nothing.
\<close>

theorem connect_idempotent:
  "connect_twice env s = connect env s \<and>
   (conn s = None \<longrightarrow> connect_calls (snd (connect_twice env s)) = connect_calls s + 1) \<and>
   (conn s \<noteq> None \<longrightarrow>
      connect env s = (Inr (), s) \<and>
      connect_calls (snd (connect_twice env s)) = connect_calls s)"
  by (auto simp: connect_twice_once connect_calls_fresh connect_connected)

theorem connect_idempotent_witness:
  "connect_calls (snd (connect_twice ex_env (ex_state None))) = 1 \<and>
   connect_twice ex_env (ex_state None) = connect ex_env (ex_state None) \<and>
   connect ex_env (ex_state (Some (ex_conn [] []))) = (Inr (), ex_state (Some (ex_conn [] [])))"
proof -
  have n: "conn (ex_state None :: unit state) = None"
    by (simp add: ex_state_def)
  have z: "connect_calls (ex_state None :: unit state) = 0"
    by (simp add: ex_state_def connect_calls_def)
  have c: "conn (ex_state (Some (ex_conn [] []))) \<noteq> None"
    by (simp add: ex_state_def)
  have "connect_calls (snd (connect_twice ex_env (ex_state None))) =
          connect_calls (ex_state None :: unit state) + 1"
    using connect_idempotent [of ex_env "ex_state None"] n by blast
  moreover have "connect_twice ex_env (ex_state None) = connect ex_env (ex_state None)"
    using connect_idempotent [of ex_env "ex_state None"] by blast
  moreover have "connect ex_env (ex_state (Some (ex_conn [] []))) =
                   (Inr (), ex_state (Some (ex_conn [] [])))"
    using connect_idempotent [of ex_env "ex_state (Some (ex_conn [] []))"] c by blast
  ultimately show ?thesis
    using z by simp
qed

section \<open>The check locator\<close>

lemma find_limit_check_none:
  "\<forall>x\<in>set checks. \<not> service_limits_check x \<Longrightarrow> fst (find_limit_check checks s) = Inr None"
  by (induction checks) (auto simp: service_limits_check_def)

lemma find_limit_check_first:
  "\<forall>x\<in>set pre. \<not> service_limits_check x \<Longrightarrow> service_limits_check check \<Longrightarrow>
   fst (find_limit_check (pre @ check # post) s) =
     Inr (Some (check_id check, check_metadata check))"
  by (induction pre) (auto simp: service_limits_check_def)

text \<open>
  C2: with a session whose API call returns the list \<open>checks\<close>, the locator returns
  the id and the metadata field list of the first check of the list that satisfies the
  criterion, whatever precedes and follows it, and \<^verbatim>\<open>None\<close> when no check of the list
  satisfies it.
\<close>

theorem locator_first_match:
  assumes "conn s = Some c" and "describe_trusted_advisor_checks c = Inr checks"
  shows "(\<forall>pre check post.
            checks = pre @ check # post \<and> (\<forall>x\<in>set pre. \<not> service_limits_check x) \<and>
            service_limits_check check \<longrightarrow>
            fst (get_limit_check_id s) = Inr (Some (check_id check, check_metadata check))) \<and>
         ((\<forall>x\<in>set checks. \<not> service_limits_check x) \<longrightarrow>
            fst (get_limit_check_id s) = Inr None)"
  using assms
  by (auto simp: get_limit_check_id_def find_limit_check_first find_limit_check_none)

theorem locator_first_match_witness:
  "fst (get_limit_check_id (ex_state (Some (ex_conn ex_checks [])))) =
     Inr (Some (''c'', [''Region'', ''Service'', ''Limit Name'', ''Limit Amount''])) \<and>
   fst (get_limit_check_id (ex_state (Some (ex_conn (take 2 ex_checks) [])))) = Inr None"
proof -
  have c: "conn (ex_state (Some (ex_conn cs []))) = Some (ex_conn cs [])" for cs
    by (simp add: ex_state_def)
  have d: "describe_trusted_advisor_checks (ex_conn cs []) = Inr cs" for cs
    by (simp add: ex_conn_def)
  have split: "ex_checks = take 2 ex_checks @ ex_checks ! 2 # drop 3 ex_checks"
    by (simp add: ex_checks_def)
  have no: "\<forall>x\<in>set (take 2 ex_checks). \<not> service_limits_check x"
    by (simp add: ex_checks_def service_limits_check_def)
  have yes: "service_limits_check (ex_checks ! 2)"
    by (simp add: ex_checks_def service_limits_check_def)
  have "fst (get_limit_check_id (ex_state (Some (ex_conn ex_checks [])))) =
          Inr (Some (check_id (ex_checks ! 2), check_metadata (ex_checks ! 2)))"
    using locator_first_match [OF c d, of ex_checks] split no yes by blast
  moreover have
    "fst (get_limit_check_id (ex_state (Some (ex_conn (take 2 ex_checks) [])))) = Inr None"
    using locator_first_match [OF c d, of "take 2 ex_checks"] no by blast
  ultimately show ?thesis
    by (simp add: ex_checks_def)
qed

section \<open>The poller\<close>

lemma find_limit_check_frame [simp]:
  "conn (snd (find_limit_check checks s)) = conn s"
  "heap (snd (find_limit_check checks s)) = heap s"
  by (induction checks) auto

lemma find_limit_check_result: "fst (find_limit_check checks s) = fst (find_limit_check checks t)"
  by (induction checks) auto

lemma get_limit_check_id_frame [simp]:
  "conn (snd (get_limit_check_id s)) = conn s"
  "heap (snd (get_limit_check_id s)) = heap s"
  by (auto simp: get_limit_check_id_def Let_def split: option.splits sum.splits)

lemma get_limit_check_id_result:
  "conn s = conn t \<Longrightarrow> fst (get_limit_check_id s) = fst (get_limit_check_id t)"
  by (auto simp: get_limit_check_id_def Let_def find_limit_check_result split: option.splits sum.splits)

lemma connect_heap [simp]: "heap (snd (connect env s)) = heap s"
  by (auto simp: connect_def Let_def split: option.splits sum.splits)

lemma poll_heap [simp]: "heap (snd (poll env s)) = heap s"
proof -
  have "heap (snd (get_limit_check_id t)) = heap t" for t :: "'a state"
    by simp
  then show ?thesis
    by (auto simp: poll_def Let_def split: prod.splits sum.splits option.splits)
      (metis get_limit_check_id_frame(2) logger_simps(2) snd_conv)+
qed

lemma poll_not_found:
  "fst (get_limit_check_id s) = Inr None \<Longrightarrow> fst (poll env s) = Inr None"
proof -
  assume a: "fst (get_limit_check_id s) = Inr None"
  have "fst (get_limit_check_id (logger INFO ''Beginning TrustedAdvisor poll'' s)) = Inr None"
    using a get_limit_check_id_result [of "logger INFO ''Beginning TrustedAdvisor poll'' s" s]
    by simp
  then show ?thesis
    by (auto simp: poll_def Let_def split: prod.splits sum.splits option.splits)
qed

lemma update_services_None:
  "fst (update_services env None services s) = Inl (AttributeError (none_attr_msg ''keys''))"
  "heap (snd (update_services env None services s)) = heap s"
  by (simp_all add: update_services_def)

text \<open>
  C1: when \<^verbatim>\<open>connect\<close> succeeds and the locator then reports "not found",
  \<^verbatim>\<open>update_limits\<close> does not complete: \<^verbatim>\<open>_poll\<close> returns \<^verbatim>\<open>None\<close> and
  \<^verbatim>\<open>_update_services\<close> raises \<^verbatim>\<open>AttributeError\<close> on \<^verbatim>\<open>ta_results.keys()\<close>. No service
  object is changed on the way.
\<close>

theorem absent_check_raises:
  assumes "fst (connect env s) = Inr ()"
    and "fst (get_limit_check_id (snd (connect env s))) = Inr None"
  shows "(\<exists>m. fst (update_limits env services s) = Inl (AttributeError m)) \<and>
         heap (snd (update_limits env services s)) = heap s"
proof -
  obtain s1 where c: "connect env s = (Inr (), s1)"
    using assms(1) by (cases "connect env s") auto
  have h1: "heap s1 = heap s"
    using connect_heap [of env s] c by simp
  have "fst (poll env s1) = Inr None"
    using assms(2) c by (simp add: poll_not_found)
  then obtain s2 where p: "poll env s1 = (Inr None, s2)"
    by (cases "poll env s1") auto
  have h2: "heap s2 = heap s1"
    using poll_heap [of env s1] p by simp
  have u: "update_limits env services s = update_services env None services s2"
    by (simp add: update_limits_def c p)
  show ?thesis
    by (simp add: u update_services_None h1 h2)
qed

theorem absent_check_raises_witness:
  "fst (update_limits ex_env Map.empty (ex_state (Some (ex_conn [] [])))) =
     Inl (AttributeError (none_attr_msg ''keys'')) \<and>
   heap (snd (update_limits ex_env Map.empty (ex_state (Some (ex_conn [] []))))) = (\<lambda>a. ())"
proof -
  have c: "fst (connect ex_env (ex_state (Some (ex_conn [] [])))) = Inr ()"
    by (simp add: connect_def ex_state_def)
  have l: "fst (get_limit_check_id (snd (connect ex_env (ex_state (Some (ex_conn [] [])))))) = Inr None"
    by (simp add: connect_def ex_state_def get_limit_check_id_def ex_conn_def)
  have e: "fst (update_limits ex_env Map.empty (ex_state (Some (ex_conn [] [])))) =
     Inl (AttributeError (none_attr_msg ''keys''))"
    by (simp add: update_limits_def connect_def ex_state_def poll_def get_limit_check_id_def ex_conn_def
        update_services_def)
  show ?thesis
    using absent_check_raises [OF c l, of Map.empty] e by (simp add: ex_state_def)
qed

lemma map_of_foldl_update:
  "map_of (foldl (\<lambda>d (k, v). AList.update k v d) d ps) = map_of d ++ map_of (rev ps)"
proof (induction ps arbitrary: d)
  case Nil
  then show ?case by simp
next
  case (Cons p ps)
  obtain k v where p: "p = (k, v)" by (cases p)
  have "map_of (AList.update k v d) ++ map_of (rev ps) = map_of d ++ (map_of (rev ps @ [(k, v)]))"
    by (rule ext) (simp add: update_conv' map_add_def split: option.splits)
  then show ?case
    using Cons.IH [of "AList.update k v d"] by (simp add: p)
qed

lemma map_of_py_dict: "map_of (py_dict (zip flds vals)) = field_value flds vals"
  by (rule ext) (simp add: py_dict_def field_value_def map_of_foldl_update)

lemma field_value_nth:
  assumes "distinct flds" and "i < length flds" and "i < length vals"
  shows "field_value flds vals (flds ! i) = Some (vals ! i)"
proof -
  have "distinct (map fst (zip flds vals))"
    using assms(1) by (simp add: map_fst_zip_take)
  then have d: "distinct (map fst (rev (zip flds vals)))"
    by (simp add: rev_map [symmetric])
  have "(flds ! i, vals ! i) \<in> set (rev (zip flds vals))"
    using assms(2,3) by (auto simp: set_zip)
  with d show ?thesis
    unfolding field_value_def by (rule map_of_is_SomeI)
qed

lemma poll_rows_retained:
  assumes "row_region r = region"
  shows "poll_rows to_int region md (r # rows) res =
           (case row_entry to_int md r of
              Inl e \<Rightarrow> Inl e
            | Inr (svc, lim, n) \<Rightarrow> poll_rows to_int region md rows (store_limit res svc lim n))"
proof (cases "field_value md (row_metadata r) ''Service''")
  case None
  then show ?thesis
    using assms by (simp add: row_entry_def map_of_py_dict)
next
  case (Some svc)
  show ?thesis
  proof (cases "svc \<in> set (keys res)")
    case True
    then obtain limits where l: "map_of res svc = Some limits"
      by (cases "map_of res svc") (auto simp: keys_def map_of_eq_None_iff)
    show ?thesis
      using assms Some True l
      by (auto simp: row_entry_def map_of_py_dict store_limit_def
          split: option.splits sum.splits)
  next
    case False
    then have l: "map_of res svc = None"
      by (simp add: keys_def map_of_eq_None_iff)
    show ?thesis
      using assms Some False l
      by (auto simp: row_entry_def map_of_py_dict store_limit_def update_conv'
          split: option.splits sum.splits)
  qed
qed

lemma poll_rows_step:
  "poll_rows to_int region md (r # rows) res =
     (if row_region r \<noteq> region then poll_rows to_int region md rows res
      else case row_entry to_int md r of
             Inl e \<Rightarrow> Inl e
           | Inr (svc, lim, n) \<Rightarrow> poll_rows to_int region md rows (store_limit res svc lim n))"
  using poll_rows_retained [of r region to_int md rows res] by simp

lemma lookup2_store_limit:
  "lookup2 (store_limit res svc lim n) s l =
     (if s = svc \<and> l = lim then Some n else lookup2 res s l)"
  by (auto simp: lookup2_def store_limit_def update_conv' split: option.splits)

lemma poll_rows_filter:
  "poll_rows to_int region md rows res =
   poll_rows to_int region md (same_region_rows region rows) res"
proof (induction rows arbitrary: res)
  case Nil
  then show ?case by (simp add: same_region_rows_def)
next
  case (Cons r rows)
  show ?case
  proof (cases "row_region r = region")
    case True
    then have "same_region_rows region (r # rows) = r # same_region_rows region rows"
      by (simp add: same_region_rows_def)
    then show ?thesis
      using True Cons.IH by (simp add: poll_rows_step del: poll_rows.simps split: sum.splits)
  next
    case False
    then have "same_region_rows region (r # rows) = same_region_rows region rows"
      by (simp add: same_region_rows_def)
    then show ?thesis
      using False Cons.IH by simp
  qed
qed

lemma poll_result:
  assumes "conn s = Some c"
  shows "fst (poll env s) =
           (case describe_trusted_advisor_checks c of
              Inl e \<Rightarrow> Inl e
            | Inr checks \<Rightarrow>
                (case fst (find_limit_check checks s) of
                   Inl e \<Rightarrow> Inl e
                 | Inr None \<Rightarrow> Inr None
                 | Inr (Some (cid, md)) \<Rightarrow>
                     (case describe_trusted_advisor_check_result c cid of
                        Inl e \<Rightarrow> Inl e
                      | Inr cr \<Rightarrow>
                          (case parser_parse env (result_timestamp cr) of
                             Inl e \<Rightarrow> Inl e
                           | Inr dt \<Rightarrow>
                               (case poll_rows (builtin_int env) (region_name c) md
                                       (flaggedResources cr) [] of
                                  Inl e \<Rightarrow> Inl e
                                | Inr res \<Rightarrow> Inr (Some res))))))"
proof -
  let ?s1 = "logger INFO ''Beginning TrustedAdvisor poll'' s"
  let ?s1' = "logger DEBUG ''Querying Trusted Advisor checks'' ?s1"
  show ?thesis
  proof (cases "describe_trusted_advisor_checks c")
    case (Inl e)
    then show ?thesis
      using assms by (simp add: poll_def get_limit_check_id_def Let_def)
  next
    case (Inr checks)
    obtain r s2 where f: "find_limit_check checks ?s1' = (r, s2)"
      by (cases "find_limit_check checks ?s1'")
    have r: "fst (find_limit_check checks s) = r"
      using f find_limit_check_result [of checks s ?s1'] by simp
    have g: "get_limit_check_id ?s1 = (r, s2)"
      using assms Inr f by (simp add: get_limit_check_id_def Let_def)
    have c2: "conn s2 = Some c"
      using find_limit_check_frame(1) [of checks ?s1'] f assms by simp
    show ?thesis
      using Inr r g c2
      by (simp add: poll_def Let_def split: sum.splits option.splits prod.splits)
  qed
qed

text \<open>
  C3: a row whose region differs from the session's region is skipped and leaves the
  map as it was; the result of the loop, and of \<^verbatim>\<open>_poll\<close> as a whole, is the one
  obtained from the rows of the session's region alone.
\<close>

theorem region_filtering:
  "(row_region r \<noteq> region \<longrightarrow>
      poll_rows to_int region md (r # rows) res = poll_rows to_int region md rows res) \<and>
   poll_rows to_int region md rows res =
     poll_rows to_int region md (same_region_rows region rows) res \<and>
   (conn s = Some c \<longrightarrow>
      fst (poll env s) = fst (poll env (s\<lparr>conn := Some (restrict_to_region c)\<rparr>)))"
proof (intro conjI impI)
  show "poll_rows to_int region md (r # rows) res = poll_rows to_int region md rows res"
    if "row_region r \<noteq> region"
    using that by simp
next
  show "poll_rows to_int region md rows res =
        poll_rows to_int region md (same_region_rows region rows) res"
    by (rule poll_rows_filter)
next
  assume c: "conn s = Some c"
  have c': "conn (s\<lparr>conn := Some (restrict_to_region c)\<rparr>) = Some (restrict_to_region c)"
    by simp
  have idem: "same_region_rows region (same_region_rows region rows) = same_region_rows region rows"
    for region rows
    by (simp add: same_region_rows_def)
  have f: "fst (find_limit_check checks (s\<lparr>conn := Some (restrict_to_region c)\<rparr>)) =
           fst (find_limit_check checks s)" for checks
    by (rule find_limit_check_result)
  show "fst (poll env s) = fst (poll env (s\<lparr>conn := Some (restrict_to_region c)\<rparr>))"
    unfolding poll_result [OF c] poll_result [OF c'] f
    by (simp add: restrict_to_region_def
        poll_rows_filter [of "builtin_int env" "region_name c" _ "flaggedResources _"]
        split: sum.splits option.splits)
qed

lemma ex_int_simps:
  "ex_int ''20'' = Inr 20" "ex_int ''30'' = Inr 30" "ex_int ''5'' = Inr 5"
  "ex_int ''-7'' = Inr (-7)"
  "ex_int ''2O'' = Inl (ValueError ''invalid literal for int()'')"
  by (simp_all add: ex_int_def is_digit_def decimal_def digit_value_def less_eq_char_def)

theorem region_filtering_witness:
  "fst (poll ex_env (ex_state (Some (ex_conn ex_checks
      [ex_row ''us-east-1'' ''EC2'' ''Instances'' ''20'',
       ex_row ''eu-west-1'' ''EC2'' ''Instances'' ''30''])))) =
   Inr (Some [(''EC2'', [(''Instances'', 20)])])"
proof -
  let ?rows = "[ex_row ''us-east-1'' ''EC2'' ''Instances'' ''20'',
                ex_row ''eu-west-1'' ''EC2'' ''Instances'' ''30'']"
  let ?c = "ex_conn ex_checks ?rows"
  have c: "conn (ex_state (Some ?c)) = Some ?c"
    by (simp add: ex_state_def)
  have r: "restrict_to_region ?c = ex_conn ex_checks [ex_row ''us-east-1'' ''EC2'' ''Instances'' ''20'']"
    by (simp add: restrict_to_region_def ex_conn_def same_region_rows_def ex_row_def)
  have "fst (poll ex_env (ex_state (Some ?c))) =
        fst (poll ex_env ((ex_state (Some ?c))\<lparr>conn := Some (restrict_to_region ?c)\<rparr>))"
    using region_filtering [of _ _ _ _ "[]" _ "ex_state (Some ?c)" ?c ex_env] c by blast
  also have "\<dots> = Inr (Some [(''EC2'', [(''Instances'', 20)])])"
    unfolding r
    by (simp add: poll_def get_limit_check_id_def ex_state_def ex_conn_def ex_checks_def ex_env_def
        ex_row_def py_dict_def keys_def ex_int_simps Let_def)
  finally show ?thesis .
qed

lemma find_limit_check_find:
  "find service_limits_check checks = Some check \<Longrightarrow>
   fst (find_limit_check checks s) = Inr (Some (check_id check, check_metadata check))"
  by (induction checks) (auto simp: service_limits_check_def split: if_splits)

lemma poll_rows_result:
  assumes "conn s = Some c"
    and "describe_trusted_advisor_checks c = Inr checks"
    and "find service_limits_check checks = Some check"
    and "describe_trusted_advisor_check_result c (check_id check) = Inr cr"
    and "parser_parse env (result_timestamp cr) = Inr dt"
  shows "fst (poll env s) =
           (case poll_rows (builtin_int env) (region_name c) (check_metadata check)
                   (flaggedResources cr) [] of
              Inl e \<Rightarrow> Inl e
            | Inr res \<Rightarrow> Inr (Some res))"
  unfolding poll_result [OF assms(1)]
  by (simp add: assms(2,4,5) find_limit_check_find [OF assms(3)])

lemma stored_Cons:
  "stored res ((s, l, n) # es) = stored (store_limit res s l n) es"
  by (simp add: stored_def)

lemma poll_rows_projects:
  "projectable to_int region md rows \<Longrightarrow>
   poll_rows to_int region md rows res = Inr (stored res (entries to_int region md rows))"
proof (induction rows arbitrary: res)
  case Nil
  then show ?case by (simp add: stored_def entries_def)
next
  case (Cons r rows)
  have rest: "projectable to_int region md rows"
    using Cons.prems by (simp add: projectable_def)
  show ?case
  proof (cases "row_region r = region")
    case False
    then have "entries to_int region md (r # rows) = entries to_int region md rows"
      by (simp add: entries_def)
    then show ?thesis
      using False Cons.IH [OF rest] by simp
  next
    case True
    then obtain s l n where e: "row_entry to_int md r = Inr (s, l, n)"
      using Cons.prems by (cases "row_entry to_int md r") (auto simp: projectable_def)
    have "entries to_int region md (r # rows) = (s, l, n) # entries to_int region md rows"
      using True e by (simp add: entries_def)
    then show ?thesis
      using True e Cons.IH [OF rest]
      by (simp add: poll_rows_retained stored_Cons del: poll_rows.simps)
  qed
qed

lemma last_value_Cons:
  "last_value ((s, l, n) # es) svc lim =
     (case last_value es svc lim of
        None \<Rightarrow> (if s = svc \<and> l = lim then Some n else None)
      | Some v \<Rightarrow> Some v)"
  by (auto simp: last_value_def map_add_def split: option.splits)

lemma lookup2_stored:
  "lookup2 (stored res es) svc lim =
     (case last_value es svc lim of None \<Rightarrow> lookup2 res svc lim | Some v \<Rightarrow> Some v)"
proof (induction es arbitrary: res)
  case Nil
  then show ?case by (simp add: stored_def last_value_def)
next
  case (Cons e es)
  obtain s l n where e: "e = (s, l, n)" by (cases e)
  show ?case
    unfolding e stored_Cons Cons.IH last_value_Cons
    by (simp add: lookup2_store_limit split: option.splits)
qed

lemma lookup2_stored_empty:
  "lookup2 (stored [] es) svc lim = last_value es svc lim"
proof -
  have "lookup2 [] svc lim = None"
    by (simp add: lookup2_def)
  then show ?thesis
    by (simp add: lookup2_stored split: option.splits)
qed

text \<open>
  C4: when the check is found, its results are fetched and every row of the session's
  region projects, \<^verbatim>\<open>_poll\<close> returns a map, and the map is the one obtained by
  storing, row after row of that region, under the \<^verbatim>\<open>Service\<close> and \<^verbatim>\<open>Limit Name\<close>
  values of the record that zips the field names with the row's values, the
  \<^verbatim>\<open>Limit Amount\<close> value turned into an integer by \<^verbatim>\<open>int\<close>: every such row's pair is
  in the map, with an integer the map holds for it, and a pair of the map holds the
  integer of the last row that carries it and no pair is in the map but those.
\<close>

theorem row_projection:
  assumes "conn s = Some c"
    and "describe_trusted_advisor_checks c = Inr checks"
    and "find service_limits_check checks = Some check"
    and "describe_trusted_advisor_check_result c (check_id check) = Inr cr"
    and "parser_parse env (result_timestamp cr) = Inr dt"
    and "projectable (builtin_int env) (region_name c) (check_metadata check) (flaggedResources cr)"
  shows "\<exists>res. fst (poll env s) = Inr (Some res) \<and>
           res = stored []
                   (entries (builtin_int env) (region_name c) (check_metadata check)
                      (flaggedResources cr)) \<and>
           (\<forall>svc lim.
              lookup2 res svc lim =
                last_value
                  (entries (builtin_int env) (region_name c) (check_metadata check)
                     (flaggedResources cr)) svc lim) \<and>
           (\<forall>r svc lim amount n.
              r \<in> set (flaggedResources cr) \<and> row_region r = region_name c \<and>
              field_value (check_metadata check) (row_metadata r) ''Service'' = Some svc \<and>
              field_value (check_metadata check) (row_metadata r) ''Limit Name'' = Some lim \<and>
              field_value (check_metadata check) (row_metadata r) ''Limit Amount'' = Some amount \<and>
              builtin_int env amount = Inr n \<longrightarrow>
              (svc, lim, n) \<in> set (entries (builtin_int env) (region_name c)
                                      (check_metadata check) (flaggedResources cr)) \<and>
              (\<exists>v. lookup2 res svc lim = Some v))"
proof -
  let ?es = "entries (builtin_int env) (region_name c) (check_metadata check) (flaggedResources cr)"
  have p: "fst (poll env s) = Inr (Some (stored [] ?es))"
    unfolding poll_rows_result [OF assms(1-5)] by (simp add: poll_rows_projects [OF assms(6)])
  have l: "\<forall>svc lim. lookup2 (stored [] ?es) svc lim = last_value ?es svc lim"
    by (simp add: lookup2_stored_empty)
  have m: "(svc, lim, n) \<in> set ?es \<and> (\<exists>v. lookup2 (stored [] ?es) svc lim = Some v)"
    if r: "r \<in> set (flaggedResources cr)" "row_region r = region_name c"
      and f: "field_value (check_metadata check) (row_metadata r) ''Service'' = Some svc"
        "field_value (check_metadata check) (row_metadata r) ''Limit Name'' = Some lim"
        "field_value (check_metadata check) (row_metadata r) ''Limit Amount'' = Some amount"
        "builtin_int env amount = Inr n"
    for r svc lim amount n
  proof -
    have e: "row_entry (builtin_int env) (check_metadata check) r = Inr (svc, lim, n)"
      using f by (simp add: row_entry_def)
    have i: "(svc, lim, n) \<in> set ?es"
      using r e by (force simp: entries_def)
    then have "((svc, lim), n) \<in> set (rev (map (\<lambda>(s, l, n). ((s, l), n)) ?es))"
      by force
    then have "map_of (rev (map (\<lambda>(s, l, n). ((s, l), n)) ?es)) (svc, lim) \<noteq> None"
      by (metis (no_types, lifting) fst_conv image_eqI map_of_eq_None_iff)
    then have "\<exists>v. last_value ?es svc lim = Some v"
      by (simp add: last_value_def)
    with i show ?thesis
      by (simp add: lookup2_stored_empty)
  qed
  show ?thesis
    using p l m by blast
qed

theorem row_projection_witness:
  "fst (poll ex_env (ex_state (Some (ex_conn ex_checks
      [ex_row ''us-east-1'' ''EC2'' ''Running On-Demand Instances'' ''20'',
       ex_row ''eu-west-1'' ''S3'' ''Buckets'' ''many''])))) =
   Inr (Some [(''EC2'', [(''Running On-Demand Instances'', 20)])]) \<and>
   lookup2 [(''EC2'', [(''Running On-Demand Instances'', 20)])]
     ''EC2'' ''Running On-Demand Instances'' = Some 20"
proof -
  let ?rows = "[ex_row ''us-east-1'' ''EC2'' ''Running On-Demand Instances'' ''20'',
                ex_row ''eu-west-1'' ''S3'' ''Buckets'' ''many'']"
  let ?c = "ex_conn ex_checks ?rows"
  let ?cr = "\<lparr>result_timestamp = ''2015-06-01T12:00:00Z'', flaggedResources = ?rows\<rparr>"
  have g: "row_region (ex_row a b c d) = a" for a b c d
    by (simp add: ex_row_def)
  have e: "row_entry ex_int ex_fields (ex_row ''us-east-1'' ''EC2'' ''Running On-Demand Instances'' ''20'') =
             Inr (''EC2'', ''Running On-Demand Instances'', 20)"
    by (simp add: row_entry_def field_value_def ex_fields_def ex_row_def ex_int_simps)
  have 1: "conn (ex_state (Some ?c)) = Some ?c"
    by (simp add: ex_state_def)
  have 2: "describe_trusted_advisor_checks ?c = Inr ex_checks"
    by (simp add: ex_conn_def)
  have 3: "find service_limits_check ex_checks = Some (ex_checks ! 2)"
    by (simp add: ex_checks_def service_limits_check_def)
  have 4: "describe_trusted_advisor_check_result ?c (check_id (ex_checks ! 2)) = Inr ?cr"
    by (simp add: ex_conn_def)
  have 5: "parser_parse ex_env (result_timestamp ?cr) = Inr ''2015-06-01T12:00:00Z''"
    by (simp add: ex_env_def)
  have md: "check_metadata (ex_checks ! 2) = ex_fields"
    by (simp add: ex_checks_def ex_fields_def)
  have i: "builtin_int ex_env = ex_int"
    by (simp add: ex_env_def)
  have rg: "region_name ?c = ''us-east-1''"
    by (simp add: ex_conn_def)
  have 6: "projectable (builtin_int ex_env) (region_name ?c) (check_metadata (ex_checks ! 2))
             (flaggedResources ?cr)"
    unfolding md i rg by (simp add: projectable_def g e)
  have es: "entries (builtin_int ex_env) (region_name ?c) (check_metadata (ex_checks ! 2))
              (flaggedResources ?cr) = [(''EC2'', ''Running On-Demand Instances'', 20)]"
    unfolding md i rg by (simp add: entries_def g e)
  have "fst (poll ex_env (ex_state (Some ?c))) =
          Inr (Some (stored [] [(''EC2'', ''Running On-Demand Instances'', 20)])) \<and>
        lookup2 (stored [] [(''EC2'', ''Running On-Demand Instances'', 20)])
          ''EC2'' ''Running On-Demand Instances'' =
        last_value [(''EC2'', ''Running On-Demand Instances'', 20)]
          ''EC2'' ''Running On-Demand Instances''"
    using row_projection [OF 1 2 3 4 5 6] unfolding es by blast
  then show ?thesis
    by (simp add: stored_def store_limit_def last_value_def)
qed

lemma poll_rows_append:
  "poll_rows to_int region md (xs @ ys) res =
     (case poll_rows to_int region md xs res of
        Inl e \<Rightarrow> Inl e
      | Inr res1 \<Rightarrow> poll_rows to_int region md ys res1)"
proof (induction xs arbitrary: res)
  case Nil
  then show ?case by simp
next
  case (Cons x xs)
  then show ?case
    by (simp add: poll_rows_step del: poll_rows.simps split: sum.splits)
qed

lemma poll_rows_untouched:
  assumes "poll_rows to_int region md rows res1 = Inr res"
    and "\<forall>r\<in>set rows. row_region r = region \<longrightarrow> (\<forall>n'. row_entry to_int md r \<noteq> Inr (svc, lim, n'))"
  shows "lookup2 res svc lim = lookup2 res1 svc lim"
  using assms
proof (induction rows arbitrary: res1)
  case Nil
  then show ?case by simp
next
  case (Cons r rows)
  show ?case
  proof (cases "row_region r = region")
    case False
    then show ?thesis
      using Cons by simp
  next
    case True
    then obtain s l n where e: "row_entry to_int md r = Inr (s, l, n)"
      and p: "poll_rows to_int region md rows (store_limit res1 s l n) = Inr res"
      using Cons.prems(1) by (auto simp: poll_rows_retained simp del: poll_rows.simps split: sum.splits)
    have ne: "\<not> (svc = s \<and> lim = l)"
      using Cons.prems(2) True e by auto
    have "lookup2 res svc lim = lookup2 (store_limit res1 s l n) svc lim"
      using Cons.IH [OF p] Cons.prems(2) by simp
    then show ?thesis
      using ne by (simp add: lookup2_store_limit)
  qed
qed

lemma poll_rows_last:
  assumes "poll_rows to_int region md (pre @ r # post) res0 = Inr res"
    and "row_region r = region"
    and "row_entry to_int md r = Inr (svc, lim, n)"
    and "\<forall>r'\<in>set post. row_region r' = region \<longrightarrow> (\<forall>n'. row_entry to_int md r' \<noteq> Inr (svc, lim, n'))"
  shows "lookup2 res svc lim = Some n"
proof -
  obtain res1 where 1: "poll_rows to_int region md pre res0 = Inr res1"
    and 2: "poll_rows to_int region md (r # post) res1 = Inr res"
    using assms(1) by (auto simp: poll_rows_append simp del: poll_rows.simps split: sum.splits)
  have 3: "poll_rows to_int region md post (store_limit res1 svc lim n) = Inr res"
    using 2 assms(2,3) by (simp add: poll_rows_retained del: poll_rows.simps)
  have "lookup2 res svc lim = lookup2 (store_limit res1 svc lim n) svc lim"
    using poll_rows_untouched [OF 3 assms(4)] .
  then show ?thesis
    by (simp add: lookup2_store_limit)
qed

lemma find_limit_check_events:
  "\<exists>m. events (snd (find_limit_check checks s)) = events s @ [Log DEBUG m]"
  by (induction checks) auto

lemma poll_events:
  "\<exists>new. events (snd (poll env s)) = events s @ new \<and> (\<forall>m. Log WARNING m \<notin> set new)"
proof -
  let ?s1 = "logger INFO ''Beginning TrustedAdvisor poll'' s"
  have g: "\<exists>new. events (snd (get_limit_check_id ?s1)) = events s @ new \<and> (\<forall>m. Log WARNING m \<notin> set new)"
  proof (cases "conn s")
    case None
    then show ?thesis by (simp add: get_limit_check_id_def Let_def)
  next
    case (Some c)
    show ?thesis
    proof (cases "describe_trusted_advisor_checks c")
      case (Inl e)
      then show ?thesis using Some by (simp add: get_limit_check_id_def Let_def)
    next
      case (Inr checks)
      obtain m where
        "events (snd (find_limit_check checks (logger DEBUG ''Querying Trusted Advisor checks'' ?s1))) =
           events (logger DEBUG ''Querying Trusted Advisor checks'' ?s1) @ [Log DEBUG m]"
        using find_limit_check_events by blast
      then show ?thesis using Some Inr by (simp add: get_limit_check_id_def Let_def)
    qed
  qed
  obtain r s2 where p: "get_limit_check_id ?s1 = (r, s2)"
    by (cases "get_limit_check_id ?s1")
  from g p obtain new where n: "events s2 = events s @ new" "\<forall>m. Log WARNING m \<notin> set new"
    by auto
  show ?thesis
    using p n
    by (auto simp: poll_def Let_def split: sum.splits option.splits prod.splits)
qed

text \<open>
  C9: when the check is found, its results are fetched and every row of the session's
  region projects, \<^verbatim>\<open>_poll\<close> returns a map in which a (service, limit) pair holds the
  value of the last row of that region that carries this pair, whatever the rows before
  it said; and this run of \<^verbatim>\<open>_poll\<close> logs no warning at all.
\<close>

theorem last_write_wins:
  assumes "conn s = Some c"
    and "describe_trusted_advisor_checks c = Inr checks"
    and "find service_limits_check checks = Some check"
    and "describe_trusted_advisor_check_result c (check_id check) = Inr cr"
    and "parser_parse env (result_timestamp cr) = Inr dt"
    and "projectable (builtin_int env) (region_name c) (check_metadata check) (flaggedResources cr)"
    and "flaggedResources cr = pre @ r # post"
    and "row_region r = region_name c"
    and "row_entry (builtin_int env) (check_metadata check) r = Inr (svc, lim, n)"
    and "\<forall>r'\<in>set post. row_region r' = region_name c \<longrightarrow>
           (\<forall>n'. row_entry (builtin_int env) (check_metadata check) r' \<noteq> Inr (svc, lim, n'))"
  shows "\<exists>res. fst (poll env s) = Inr (Some res) \<and>
           lookup2 res svc lim = Some n \<and>
           (\<forall>m. Log WARNING m \<notin> set (new_events s (snd (poll env s))))"
proof -
  let ?es = "entries (builtin_int env) (region_name c) (check_metadata check) (flaggedResources cr)"
  have rows: "poll_rows (builtin_int env) (region_name c) (check_metadata check)
                (flaggedResources cr) [] = Inr (stored [] ?es)"
    by (rule poll_rows_projects [OF assms(6)])
  have p: "fst (poll env s) = Inr (Some (stored [] ?es))"
    unfolding poll_rows_result [OF assms(1-5)] by (simp add: rows)
  have "poll_rows (builtin_int env) (region_name c) (check_metadata check)
          (pre @ r # post) [] = Inr (stored [] ?es)"
    using rows by (simp add: assms(7))
  then have a: "lookup2 (stored [] ?es) svc lim = Some n"
    using assms(8,9,10) by (rule poll_rows_last)
  obtain new where "events (snd (poll env s)) = events s @ new" "\<forall>m. Log WARNING m \<notin> set new"
    using poll_events by blast
  then have b: "\<forall>m. Log WARNING m \<notin> set (new_events s (snd (poll env s)))"
    by (simp add: new_events_def)
  show ?thesis
    using p a b by blast
qed

theorem last_write_wins_witness:
  "fst (poll ex_env (ex_state (Some (ex_conn ex_checks
      [ex_row ''us-east-1'' ''EC2'' ''Instances'' ''20'',
       ex_row ''us-east-1'' ''EC2'' ''Instances'' ''30'',
       ex_row ''us-east-1'' ''EC2'' ''Volumes'' ''5''])))) =
   Inr (Some [(''EC2'', [(''Instances'', 30), (''Volumes'', 5)])]) \<and>
   lookup2 [(''EC2'', [(''Instances'', 30), (''Volumes'', 5)])] ''EC2'' ''Instances'' = Some 30"
proof -
  let ?r1 = "ex_row ''us-east-1'' ''EC2'' ''Instances'' ''20''"
  let ?r2 = "ex_row ''us-east-1'' ''EC2'' ''Instances'' ''30''"
  let ?r3 = "ex_row ''us-east-1'' ''EC2'' ''Volumes'' ''5''"
  let ?c = "ex_conn ex_checks [?r1, ?r2, ?r3]"
  let ?cr = "\<lparr>result_timestamp = ''2015-06-01T12:00:00Z'', flaggedResources = [?r1, ?r2, ?r3]\<rparr>"
  let ?res = "[(''EC2'', [(''Instances'', 30), (''Volumes'', 5 :: int)])]"
  have e: "row_entry ex_int ex_fields ?r1 = Inr (''EC2'', ''Instances'', 20)"
    "row_entry ex_int ex_fields ?r2 = Inr (''EC2'', ''Instances'', 30)"
    "row_entry ex_int ex_fields ?r3 = Inr (''EC2'', ''Volumes'', 5)"
    by (simp_all add: row_entry_def field_value_def ex_fields_def ex_row_def ex_int_simps)
  have g: "row_region (ex_row a b c d) = a" for a b c d
    by (simp add: ex_row_def)
  have md: "check_metadata (ex_checks ! 2) = ex_fields"
    by (simp add: ex_checks_def ex_fields_def)
  have i: "builtin_int ex_env = ex_int"
    by (simp add: ex_env_def)
  have rg: "region_name ?c = ''us-east-1''"
    by (simp add: ex_conn_def)
  have 1: "conn (ex_state (Some ?c)) = Some ?c"
    by (simp add: ex_state_def)
  have 2: "describe_trusted_advisor_checks ?c = Inr ex_checks"
    by (simp add: ex_conn_def)
  have 3: "find service_limits_check ex_checks = Some (ex_checks ! 2)"
    by (simp add: ex_checks_def service_limits_check_def)
  have 4: "describe_trusted_advisor_check_result ?c (check_id (ex_checks ! 2)) = Inr ?cr"
    by (simp add: ex_conn_def)
  have 5: "parser_parse ex_env (result_timestamp ?cr) = Inr ''2015-06-01T12:00:00Z''"
    by (simp add: ex_env_def)
  have 6: "projectable (builtin_int ex_env) (region_name ?c) (check_metadata (ex_checks ! 2))
             (flaggedResources ?cr)"
    unfolding md i rg by (simp add: projectable_def g e)
  have 7: "flaggedResources ?cr = [?r1] @ ?r2 # [?r3]"
    by simp
  have 8: "row_region ?r2 = region_name ?c"
    unfolding rg by (rule g)
  have 9: "row_entry (builtin_int ex_env) (check_metadata (ex_checks ! 2)) ?r2 =
             Inr (''EC2'', ''Instances'', 30)"
    unfolding md i by (rule e(2))
  have 10: "\<forall>r'\<in>set [?r3]. row_region r' = region_name ?c \<longrightarrow>
             (\<forall>n'. row_entry (builtin_int ex_env) (check_metadata (ex_checks ! 2)) r' \<noteq>
                     Inr (''EC2'', ''Instances'', n'))"
    unfolding md i rg by (simp add: e g)
  have v: "fst (poll ex_env (ex_state (Some ?c))) = Inr (Some ?res)"
    unfolding poll_rows_result [OF 1 2 3 4 5] md i rg
    by (simp add: poll_rows_step e g store_limit_def del: poll_rows.simps(2))
  obtain res where "fst (poll ex_env (ex_state (Some ?c))) = Inr (Some res)"
    and l: "lookup2 res ''EC2'' ''Instances'' = Some 30"
    using last_write_wins [OF 1 2 3 4 5 6 7 8 9 10] by blast
  then have "res = ?res"
    using v by simp
  then show ?thesis
    using v l by simp
qed

section \<open>The reconciler\<close>

lemma update_lims_run:
  "update_lims env a svc limits names s =
     (case lims_run env a svc limits names (heap s) of
        (r, h, evs) \<Rightarrow> (r, s\<lparr>events := events s @ evs, heap := h\<rparr>))"
proof (induction names arbitrary: s)
  case Nil
  then show ?case by simp
next
  case (Cons lim rest)
  show ?case
    by (auto simp: Cons.IH unknown_limit_msg_def emit_def logger_def Let_def fun_upd_def
        split: option.splits prod.splits sum.splits)
qed

lemma update_svcs_run:
  "update_svcs env ta services names s =
     (case svcs_run env ta services names (heap s) of
        (r, h, evs) \<Rightarrow> (r, s\<lparr>events := events s @ evs, heap := h\<rparr>))"
proof (induction names arbitrary: s)
  case Nil
  then show ?case by simp
next
  case (Cons svc rest)
  show ?case
    by (auto simp: Cons.IH update_lims_run unknown_service_msg_def emit_def logger_def
        split: option.splits prod.splits sum.splits)
qed

lemma update_services_run:
  "update_services env (Some ta) services s =
     (case svcs_run env ta services (sort (keys ta)) (heap s) of
        (Inl e, h, evs) \<Rightarrow>
          (Inl e, s\<lparr>events := events s @ Log DEBUG ''Updating TA limits on all services'' # evs,
                     heap := h\<rparr>)
      | (Inr u, h, evs) \<Rightarrow>
          (Inr (), s\<lparr>events := events s @ Log DEBUG ''Updating TA limits on all services'' # evs
                                  @ [Log INFO ''Done updating TA limits on all services''],
                      heap := h\<rparr>))"
  by (auto simp: update_services_def update_svcs_run Let_def emit_def logger_def
      split: prod.splits sum.splits)

lemma calls_append [simp]: "calls (xs @ ys) = calls xs @ calls ys"
  by (induction xs rule: calls.induct) auto

lemma lims_run_Cons_cases [consumes 1, case_names missing returned swallowed raised]:
  assumes "lims_run env a svc l (lim # rest) h0 = (r, h, evs)"
  obtains
    "map_of l lim = None" "r = Inl (KeyError lim)" "evs = []" "h = h0"
  | v obj evs' where "map_of l lim = Some v"
      "lims_run env a svc l rest (h0(a := obj)) = (r, h, evs')"
      "evs = SetTaLimit svc lim v None # evs'"
      "set_ta_limit env (h0 a) lim v = (None, obj)"
  | v obj e evs' where "map_of l lim = Some v" "is_ValueError e"
      "lims_run env a svc l rest (h0(a := obj)) = (r, h, evs')"
      "evs = SetTaLimit svc lim v (Some e) # Log WARNING (unknown_limit_msg lim svc) # evs'"
      "set_ta_limit env (h0 a) lim v = (Some e, obj)"
  | v e obj where "map_of l lim = Some v" "\<not> is_ValueError e" "r = Inl e"
      "evs = [SetTaLimit svc lim v (Some e)]"
      "set_ta_limit env (h0 a) lim v = (Some e, obj)" "h = h0(a := obj)"
proof (cases "map_of l lim")
  case None
  then show ?thesis using assms that(1) by simp
next
  case v: (Some v)
  obtain exc obj where c: "set_ta_limit env (h0 a) lim v = (exc, obj)"
    by (cases "set_ta_limit env (h0 a) lim v")
  obtain r' h' evs' where rest: "lims_run env a svc l rest (h0(a := obj)) = (r', h', evs')"
    by (cases "lims_run env a svc l rest (h0(a := obj))")
  show ?thesis
  proof (cases exc)
    case None
    have "lims_run env a svc l (lim # rest) h0 = (r', h', SetTaLimit svc lim v None # evs')"
      by (simp add: v c None rest)
    with assms have "r = r'" "h = h'" "evs = SetTaLimit svc lim v None # evs'"
      by simp_all
    then show ?thesis
      using that(2) [of v obj evs'] v c None rest by blast
  next
    case (Some e)
    show ?thesis
    proof (cases "is_ValueError e")
      case True
      have "lims_run env a svc l (lim # rest) h0 =
              (r', h', SetTaLimit svc lim v (Some e) # Log WARNING (unknown_limit_msg lim svc) # evs')"
        by (simp add: v c Some True rest)
      with assms have "r = r'" "h = h'"
        "evs = SetTaLimit svc lim v (Some e) # Log WARNING (unknown_limit_msg lim svc) # evs'"
        by simp_all
      then show ?thesis
        using that(3) [of v e obj evs'] v c Some True rest by blast
    next
      case False
      have "lims_run env a svc l (lim # rest) h0 =
              (Inl e, h0(a := obj), [SetTaLimit svc lim v (Some e)])"
        by (simp add: v c Some False)
      with assms have "r = Inl e" "h = h0(a := obj)" "evs = [SetTaLimit svc lim v (Some e)]"
        by simp_all
      then show ?thesis
        using that(4) [of v e obj] v c Some False by blast
    qed
  qed
qed

lemma limit_plan_Cons:
  "limit_plan svc l (lim # rest) =
     (case map_of l lim of None \<Rightarrow> [] | Some v \<Rightarrow> [(svc, lim, v)]) @ limit_plan svc l rest"
  by (simp add: limit_plan_def)

lemma lims_calls_all:
  "lims_run env a svc l ns h0 = (Inr (), h, evs) \<Longrightarrow> calls evs = limit_plan svc l ns"
proof (induction ns arbitrary: h0 evs)
  case Nil
  then show ?case by (simp add: limit_plan_def)
next
  case (Cons lim rest)
  from Cons.prems show ?case
    by (cases rule: lims_run_Cons_cases) (auto simp: limit_plan_Cons dest: Cons.IH)
qed


lemma in_keys_map_of: "k \<in> set (keys d) \<Longrightarrow> \<exists>v. map_of d k = Some v"
  by (cases "map_of d k") (auto simp: keys_def map_of_eq_None_iff)

lemma map_of_in_keys: "map_of d k = Some v \<Longrightarrow> k \<in> set (keys d)"
  by (auto simp: keys_def dest: map_of_SomeD intro: rev_image_eqI)

lemma lims_raise:
  "lims_run env a svc l ns h0 = (Inl e, h, evs) \<Longrightarrow> set ns \<subseteq> set (keys l) \<Longrightarrow>
   \<not> is_ValueError e \<and> (\<exists>lim v. SetTaLimit svc lim v (Some e) \<in> set evs)"
proof (induction ns arbitrary: h0 evs)
  case Nil
  then show ?case by simp
next
  case (Cons lim rest)
  from Cons.prems(1) show ?case
  proof (cases rule: lims_run_Cons_cases)
    case missing
    then show ?thesis using Cons.prems(2) in_keys_map_of [of lim l] by simp
  next
    case (returned v obj evs')
    then show ?thesis using Cons.IH [OF returned(2)] Cons.prems(2) by auto
  next
    case (swallowed v obj e' evs')
    then show ?thesis using Cons.IH [OF swallowed(3)] Cons.prems(2) by auto
  next
    case (raised v e')
    then show ?thesis by auto
  qed
qed

lemma lims_warning:
  "lims_run env a svc l ns h0 = (r, h, evs) \<Longrightarrow> SetTaLimit svc' lim v (Some e) \<in> set evs \<Longrightarrow>
   is_ValueError e \<Longrightarrow> Log WARNING (unknown_limit_msg lim svc') \<in> set evs"
proof (induction ns arbitrary: h0 evs)
  case Nil
  then show ?case by simp
next
  case (Cons n rest)
  from Cons.prems(1) show ?case
    by (cases rule: lims_run_Cons_cases) (use Cons.prems(2,3) Cons.IH in auto)
qed

lemma lims_propagate:
  "lims_run env a svc l ns h0 = (r, h, evs) \<Longrightarrow> SetTaLimit svc' lim v (Some e) \<in> set evs \<Longrightarrow>
   \<not> is_ValueError e \<Longrightarrow> r = Inl e"
proof (induction ns arbitrary: h0 evs)
  case Nil
  then show ?case by simp
next
  case (Cons n rest)
  from Cons.prems(1) show ?case
    by (cases rule: lims_run_Cons_cases) (use Cons.prems(2,3) Cons.IH in auto)
qed

lemma lims_events_svc:
  "lims_run env a svc l ns h0 = (r, h, evs) \<Longrightarrow> SetTaLimit svc' lim v exc \<in> set evs \<Longrightarrow>
   svc' = svc"
proof (induction ns arbitrary: h0 evs)
  case Nil
  then show ?case by simp
next
  case (Cons n rest)
  from Cons.prems(1) show ?case
    by (cases rule: lims_run_Cons_cases) (use Cons.prems(2) Cons.IH in auto)
qed

lemma lims_attempted:
  "lims_run env a svc l ns h0 = (Inr (), h, evs) \<Longrightarrow> lim \<in> set ns \<Longrightarrow> map_of l lim = Some v \<Longrightarrow>
   \<exists>exc. SetTaLimit svc lim v exc \<in> set evs"
proof (induction ns arbitrary: h0 evs)
  case Nil
  then show ?case by simp
next
  case (Cons n rest)
  from Cons.prems(1) show ?case
  proof (cases rule: lims_run_Cons_cases)
    case missing
    then show ?thesis by simp
  next
    case (returned v' obj evs')
    show ?thesis
    proof (cases "lim = n")
      case True
      then show ?thesis using returned Cons.prems(3) by auto
    next
      case False
      then have "lim \<in> set rest" using Cons.prems(2) by simp
      from Cons.IH [OF returned(2) this Cons.prems(3)] show ?thesis
        using returned(3) by auto
    qed
  next
    case (swallowed v' obj e evs')
    show ?thesis
    proof (cases "lim = n")
      case True
      then show ?thesis using swallowed Cons.prems(3) by auto
    next
      case False
      then have "lim \<in> set rest" using Cons.prems(2) by simp
      from Cons.IH [OF swallowed(3) this Cons.prems(3)] show ?thesis
        using swallowed(4) by auto
    qed
  next
    case (raised v' e)
    then show ?thesis by simp
  qed
qed

lemma lims_outcome:
  "lims_run env a svc l ns h0 = (r, h, evs) \<Longrightarrow> SetTaLimit svc' lim v exc \<in> set evs \<Longrightarrow>
   \<exists>obj. fst (set_ta_limit env obj lim v) = exc"
proof (induction ns arbitrary: h0 evs)
  case Nil
  then show ?case by simp
next
  case (Cons n rest)
  from Cons.prems(1) show ?case
  proof (cases rule: lims_run_Cons_cases)
    case missing
    then show ?thesis using Cons.prems(2) by simp
  next
    case (returned v' obj evs')
    show ?thesis
    proof (cases "SetTaLimit svc' lim v exc \<in> set evs'")
      case True
      then show ?thesis using Cons.IH [OF returned(2)] by blast
    next
      case False
      then have "lim = n \<and> v = v' \<and> exc = None"
        using Cons.prems(2) returned(3) by auto
      then show ?thesis
        using returned(4) by (metis fst_conv)
    qed
  next
    case (swallowed v' obj e evs')
    show ?thesis
    proof (cases "SetTaLimit svc' lim v exc \<in> set evs'")
      case True
      then show ?thesis using Cons.IH [OF swallowed(3)] by blast
    next
      case False
      then have "lim = n \<and> v = v' \<and> exc = Some e"
        using Cons.prems(2) swallowed(4) by auto
      then show ?thesis
        using swallowed(5) by (metis fst_conv)
    qed
  next
    case (raised v' e obj)
    then have "lim = n \<and> v = v' \<and> exc = Some e"
      using Cons.prems(2) by auto
    then show ?thesis
      using raised(5) by (metis fst_conv)
  qed
qed

lemma svcs_run_Cons_cases [consumes 1, case_names missing unknown aborted continued]:
  assumes "svcs_run env ta services (svc # rest) h0 = (r, h, evs)"
  obtains
    "map_of ta svc = None" "r = Inl (KeyError svc)" "evs = []" "h = h0"
  | l evs' where "map_of ta svc = Some l" "services svc = None"
      "svcs_run env ta services rest h0 = (r, h, evs')"
      "evs = Log CRITICAL (unknown_service_msg svc) # evs'"
  | l a e where "map_of ta svc = Some l" "services svc = Some a"
      "lims_run env a svc l (sort (keys l)) h0 = (Inl e, h, evs)" "r = Inl e"
  | l a h1 evs1 evs' where "map_of ta svc = Some l" "services svc = Some a"
      "lims_run env a svc l (sort (keys l)) h0 = (Inr (), h1, evs1)"
      "svcs_run env ta services rest h1 = (r, h, evs')"
      "evs = evs1 @ evs'"
proof (cases "map_of ta svc")
  case None
  then show ?thesis using assms that(1) by simp
next
  case l: (Some l)
  show ?thesis
  proof (cases "services svc")
    case None
    obtain r' h' evs' where rest: "svcs_run env ta services rest h0 = (r', h', evs')"
      by (cases "svcs_run env ta services rest h0")
    have "svcs_run env ta services (svc # rest) h0 =
            (r', h', Log CRITICAL (unknown_service_msg svc) # evs')"
      by (simp add: l None rest)
    with assms have "r = r'" "h = h'" "evs = Log CRITICAL (unknown_service_msg svc) # evs'"
      by simp_all
    then show ?thesis
      using that(2) [of l evs'] l None rest by blast
  next
    case a: (Some a)
    obtain r1 h1 evs1 where i: "lims_run env a svc l (sort (keys l)) h0 = (r1, h1, evs1)"
      by (cases "lims_run env a svc l (sort (keys l)) h0")
    show ?thesis
    proof (cases r1)
      case (Inl e)
      have "svcs_run env ta services (svc # rest) h0 = (Inl e, h1, evs1)"
        by (simp add: l a i Inl)
      with assms have "r = Inl e" "h = h1" "evs = evs1"
        by simp_all
      then show ?thesis
        using that(3) [of l a e] l a i Inl by blast
    next
      case (Inr u)
      obtain r' h' evs' where rest: "svcs_run env ta services rest h1 = (r', h', evs')"
        by (cases "svcs_run env ta services rest h1")
      have "svcs_run env ta services (svc # rest) h0 = (r', h', evs1 @ evs')"
        by (simp add: l a i Inr rest)
      with assms have "r = r'" "h = h'" "evs = evs1 @ evs'"
        by simp_all
      then show ?thesis
        using that(4) [of l a h1 evs1 evs'] l a i Inr rest by (cases u) blast
    qed
  qed
qed

lemma service_plan_Cons:
  "service_plan ta services (svc # rest) =
     (case map_of ta svc of
        None \<Rightarrow> []
      | Some l \<Rightarrow> (case services svc of None \<Rightarrow> [] | Some a \<Rightarrow> limit_plan svc l (sort (keys l))))
     @ service_plan ta services rest"
  by (simp add: service_plan_def)

lemma svcs_calls_all:
  "svcs_run env ta services ns h0 = (Inr (), h, evs) \<Longrightarrow> calls evs = service_plan ta services ns"
proof (induction ns arbitrary: h0 evs)
  case Nil
  then show ?case by (simp add: service_plan_def)
next
  case (Cons svc rest)
  from Cons.prems show ?case
  proof (cases rule: svcs_run_Cons_cases)
    case missing
    then show ?thesis by simp
  next
    case (unknown l evs')
    then show ?thesis using Cons.IH [OF unknown(3)] by (simp add: service_plan_Cons)
  next
    case (aborted l a e)
    then show ?thesis by simp
  next
    case (continued l a h1 evs1 evs')
    then show ?thesis
      using Cons.IH [OF continued(4)] lims_calls_all [OF continued(3)]
      by (simp add: service_plan_Cons)
  qed
qed


lemma svcs_raise:
  "svcs_run env ta services ns h0 = (Inl e, h, evs) \<Longrightarrow> set ns \<subseteq> set (keys ta) \<Longrightarrow>
   \<not> is_ValueError e \<and> (\<exists>svc lim v. SetTaLimit svc lim v (Some e) \<in> set evs)"
proof (induction ns arbitrary: h0 evs)
  case Nil
  then show ?case by simp
next
  case (Cons svc rest)
  from Cons.prems(1) show ?case
  proof (cases rule: svcs_run_Cons_cases)
    case missing
    then show ?thesis using Cons.prems(2) in_keys_map_of [of svc ta] by simp
  next
    case (unknown l evs')
    then show ?thesis using Cons.IH [OF unknown(3)] Cons.prems(2) by auto
  next
    case (aborted l a e')
    then show ?thesis using lims_raise [of env a svc l "sort (keys l)" h0 e h evs] by auto
  next
    case (continued l a h1 evs1 evs')
    then show ?thesis using Cons.IH [OF continued(4)] Cons.prems(2) by auto
  qed
qed

lemma svcs_warning:
  "svcs_run env ta services ns h0 = (r, h, evs) \<Longrightarrow> SetTaLimit svc' lim v (Some e) \<in> set evs \<Longrightarrow>
   is_ValueError e \<Longrightarrow> Log WARNING (unknown_limit_msg lim svc') \<in> set evs"
proof (induction ns arbitrary: h0 evs)
  case Nil
  then show ?case by simp
next
  case (Cons svc rest)
  from Cons.prems(1) show ?case
  proof (cases rule: svcs_run_Cons_cases)
    case missing
    then show ?thesis using Cons.prems(2) by simp
  next
    case (unknown l evs')
    then show ?thesis using Cons.IH [OF unknown(3)] Cons.prems(2,3) by auto
  next
    case (aborted l a e')
    then show ?thesis using lims_warning [OF aborted(3) Cons.prems(2,3)] by simp
  next
    case (continued l a h1 evs1 evs')
    then show ?thesis
      using Cons.IH [OF continued(4)] lims_warning [OF continued(3)] Cons.prems(2,3) by auto
  qed
qed

lemma lims_success_swallowed:
  "lims_run env a svc l ns h0 = (Inr (), h, evs) \<Longrightarrow> SetTaLimit svc' lim v (Some e) \<in> set evs \<Longrightarrow>
   is_ValueError e"
  using lims_propagate [of env a svc l ns h0 "Inr ()" h evs svc' lim v e] by auto

lemma svcs_propagate:
  "svcs_run env ta services ns h0 = (r, h, evs) \<Longrightarrow> SetTaLimit svc' lim v (Some e) \<in> set evs \<Longrightarrow>
   \<not> is_ValueError e \<Longrightarrow> r = Inl e"
proof (induction ns arbitrary: h0 evs)
  case Nil
  then show ?case by simp
next
  case (Cons svc rest)
  from Cons.prems(1) show ?case
  proof (cases rule: svcs_run_Cons_cases)
    case missing
    then show ?thesis using Cons.prems(2) by simp
  next
    case (unknown l evs')
    then show ?thesis using Cons.IH [OF unknown(3)] Cons.prems(2,3) by auto
  next
    case (aborted l a e')
    then show ?thesis using lims_propagate [OF aborted(3) Cons.prems(2,3)] by simp
  next
    case (continued l a h1 evs1 evs')
    then show ?thesis
      using Cons.IH [OF continued(4)] lims_success_swallowed [OF continued(3)] Cons.prems(2,3)
      by auto
  qed
qed

lemma svcs_calls_known:
  "svcs_run env ta services ns h0 = (r, h, evs) \<Longrightarrow> SetTaLimit svc' lim v exc \<in> set evs \<Longrightarrow>
   services svc' \<noteq> None"
proof (induction ns arbitrary: h0 evs)
  case Nil
  then show ?case by simp
next
  case (Cons svc rest)
  from Cons.prems(1) show ?case
  proof (cases rule: svcs_run_Cons_cases)
    case missing
    then show ?thesis using Cons.prems(2) by simp
  next
    case (unknown l evs')
    then show ?thesis using Cons.IH [OF unknown(3)] Cons.prems(2) by auto
  next
    case (aborted l a e')
    then show ?thesis using lims_events_svc [OF aborted(3) Cons.prems(2)] by simp
  next
    case (continued l a h1 evs1 evs')
    then show ?thesis
      using Cons.IH [OF continued(4)] lims_events_svc [OF continued(3)] Cons.prems(2) by auto
  qed
qed

lemma svcs_attempted:
  "svcs_run env ta services ns h0 = (Inr (), h, evs) \<Longrightarrow> svc \<in> set ns \<Longrightarrow>
   map_of ta svc = Some l \<Longrightarrow> services svc = Some a \<Longrightarrow> map_of l lim = Some v \<Longrightarrow>
   \<exists>exc. SetTaLimit svc lim v exc \<in> set evs"
proof (induction ns arbitrary: h0 evs)
  case Nil
  then show ?case by simp
next
  case (Cons n rest)
  have lim: "lim \<in> set (sort (keys l))"
    using Cons.prems(5) by (simp add: map_of_in_keys)
  from Cons.prems(1) show ?case
  proof (cases rule: svcs_run_Cons_cases)
    case missing
    then show ?thesis by simp
  next
    case (unknown l' evs')
    then have "svc \<in> set rest" using Cons.prems(2,4) by auto
    from Cons.IH [OF unknown(3) this Cons.prems(3,4,5)] show ?thesis
      using unknown(4) by auto
  next
    case (aborted l' a' e)
    then show ?thesis by simp
  next
    case (continued l' a' h1 evs1 evs')
    show ?thesis
    proof (cases "svc = n")
      case True
      then have "l' = l" using continued(1) Cons.prems(3) by simp
      then have run: "lims_run env a' n l (sort (keys l)) h0 = (Inr (), h1, evs1)"
        using continued(3) by simp
      from lims_attempted [OF run lim Cons.prems(5)] show ?thesis
        using True continued(5) by auto
    next
      case False
      then have "svc \<in> set rest" using Cons.prems(2) by simp
      from Cons.IH [OF continued(4) this Cons.prems(3,4,5)] show ?thesis
        using continued(5) by auto
    qed
  qed
qed

lemma svcs_critical:
  "svcs_run env ta services ns h0 = (Inr (), h, evs) \<Longrightarrow> svc \<in> set ns \<Longrightarrow> services svc = None \<Longrightarrow>
   Log CRITICAL (unknown_service_msg svc) \<in> set evs"
proof (induction ns arbitrary: h0 evs)
  case Nil
  then show ?case by simp
next
  case (Cons n rest)
  from Cons.prems(1) show ?case
  proof (cases rule: svcs_run_Cons_cases)
    case missing
    then show ?thesis by simp
  next
    case (unknown l' evs')
    then show ?thesis using Cons.IH [OF unknown(3)] Cons.prems(2,3) by auto
  next
    case (aborted l' a' e)
    then show ?thesis by simp
  next
    case (continued l' a' h1 evs1 evs')
    then have "svc \<in> set rest" using Cons.prems(2,3) by auto
    then show ?thesis
      using Cons.IH [OF continued(4)] Cons.prems(3) continued(5) by auto
  qed
qed

lemma svcs_outcome:
  "svcs_run env ta services ns h0 = (r, h, evs) \<Longrightarrow> SetTaLimit svc' lim v exc \<in> set evs \<Longrightarrow>
   \<exists>obj. fst (set_ta_limit env obj lim v) = exc"
proof (induction ns arbitrary: h0 evs)
  case Nil
  then show ?case by simp
next
  case (Cons svc rest)
  from Cons.prems(1) show ?case
  proof (cases rule: svcs_run_Cons_cases)
    case missing
    then show ?thesis using Cons.prems(2) by simp
  next
    case (unknown l evs')
    then show ?thesis using Cons.IH [OF unknown(3)] Cons.prems(2) by auto
  next
    case (aborted l a e')
    then show ?thesis using lims_outcome [OF aborted(3) Cons.prems(2)] by simp
  next
    case (continued l a h1 evs1 evs')
    then show ?thesis
      using Cons.IH [OF continued(4)] lims_outcome [OF continued(3)] Cons.prems(2) by auto
  qed
qed

lemma applied_Nil [simp]: "applied env services h [] = h"
  by (simp add: applied_def)

lemma applied_Cons [simp]:
  "applied env services h (c # cs) = applied env services (apply_call env services h c) cs"
  by (simp add: applied_def)

lemma applied_append [simp]:
  "applied env services h (cs @ ds) = applied env services (applied env services h cs) ds"
  by (simp add: applied_def)

lemma accepted_append [simp]: "accepted (xs @ ys) = accepted xs @ accepted ys"
  by (induction xs rule: accepted.induct) auto

lemma apply_call_known:
  "services svc = Some a \<Longrightarrow>
   apply_call env services h (svc, lim, v) = h(a := snd (set_ta_limit env (h a) lim v))"
  by (simp add: apply_call_def)

lemma lims_heap:
  assumes "services svc = Some a"
  shows "lims_run env a svc l ns h0 = (r, h, evs) \<Longrightarrow> h = applied env services h0 (calls evs)"
proof (induction ns arbitrary: h0 evs)
  case Nil
  then show ?case by simp
next
  case (Cons n rest)
  have step: "applied env services h0 ((svc, n, v) # cs) =
              applied env services (h0(a := obj)) cs"
    if "set_ta_limit env (h0 a) n v = (exc, obj)" for v cs exc obj
    using that assms by (simp add: apply_call_known)
  from Cons.prems show ?case
  proof (cases rule: lims_run_Cons_cases)
    case missing
    then show ?thesis by simp
  next
    case (returned v obj evs')
    have "h = applied env services (h0(a := obj)) (calls evs')"
      using returned(2) by (rule Cons.IH)
    then show ?thesis
      unfolding returned(3) calls.simps step [OF returned(4)] .
  next
    case (swallowed v obj e evs')
    have "h = applied env services (h0(a := obj)) (calls evs')"
      using swallowed(3) by (rule Cons.IH)
    then show ?thesis
      unfolding swallowed(4) calls.simps step [OF swallowed(5)] .
  next
    case (raised v e obj)
    show ?thesis
      unfolding raised(4,6) calls.simps step [OF raised(5)] by simp
  qed
qed

lemma svcs_heap:
  "svcs_run env ta services ns h0 = (r, h, evs) \<Longrightarrow> h = applied env services h0 (calls evs)"
proof (induction ns arbitrary: h0 evs)
  case Nil
  then show ?case by simp
next
  case (Cons svc rest)
  from Cons.prems(1) show ?case
  proof (cases rule: svcs_run_Cons_cases)
    case missing
    then show ?thesis by simp
  next
    case (unknown l evs')
    then show ?thesis using Cons.IH [OF unknown(3)] by simp
  next
    case (aborted l a e)
    show ?thesis
      using aborted(2) aborted(3) by (rule lims_heap)
  next
    case (continued l a h1 evs1 evs')
    have "h1 = applied env services h0 (calls evs1)"
      using continued(2) continued(3) by (rule lims_heap)
    then show ?thesis
      using Cons.IH [OF continued(4)] continued(5) by simp
  qed
qed

lemma lims_heap_accepted:
  assumes "\<forall>obj lim v e. fst (set_ta_limit env obj lim v) = Some e \<longrightarrow>
             snd (set_ta_limit env obj lim v) = obj"
    and "services svc = Some a"
  shows "lims_run env a svc l ns h0 = (r, h, evs) \<Longrightarrow> h = applied env services h0 (accepted evs)"
proof (induction ns arbitrary: h0 evs)
  case Nil
  then show ?case by simp
next
  case (Cons n rest)
  have step: "applied env services h0 ((svc, n, v) # cs) =
              applied env services (h0(a := obj)) cs"
    if "set_ta_limit env (h0 a) n v = (exc, obj)" for v cs exc obj
    using that assms(2) by (simp add: apply_call_known)
  have keep: "h0(a := obj) = h0" if "set_ta_limit env (h0 a) n v = (Some e, obj)" for v e obj
  proof -
    have "snd (set_ta_limit env (h0 a) n v) = h0 a"
      using assms(1) that by (metis fst_conv)
    then have "obj = h0 a"
      using that by simp
    then show ?thesis
      by simp
  qed
  from Cons.prems show ?case
  proof (cases rule: lims_run_Cons_cases)
    case missing
    then show ?thesis by simp
  next
    case (returned v obj evs')
    have "h = applied env services (h0(a := obj)) (accepted evs')"
      using returned(2) by (rule Cons.IH)
    then show ?thesis
      unfolding returned(3) accepted.simps step [OF returned(4)] .
  next
    case (swallowed v obj e evs')
    have "h = applied env services (h0(a := obj)) (accepted evs')"
      using swallowed(3) by (rule Cons.IH)
    then show ?thesis
      unfolding swallowed(4) accepted.simps keep [OF swallowed(5)] .
  next
    case (raised v e obj)
    show ?thesis
      unfolding raised(4,6) accepted.simps keep [OF raised(5)] by simp
  qed
qed

lemma svcs_heap_accepted:
  assumes "\<forall>obj lim v e. fst (set_ta_limit env obj lim v) = Some e \<longrightarrow>
             snd (set_ta_limit env obj lim v) = obj"
  shows "svcs_run env ta services ns h0 = (r, h, evs) \<Longrightarrow>
         h = applied env services h0 (accepted evs)"
proof (induction ns arbitrary: h0 evs)
  case Nil
  then show ?case by simp
next
  case (Cons svc rest)
  from Cons.prems(1) show ?case
  proof (cases rule: svcs_run_Cons_cases)
    case missing
    then show ?thesis by simp
  next
    case (unknown l evs')
    then show ?thesis using Cons.IH [OF unknown(3)] by simp
  next
    case (aborted l a e)
    show ?thesis
      using assms aborted(2) aborted(3) by (rule lims_heap_accepted)
  next
    case (continued l a h1 evs1 evs')
    have "h1 = applied env services h0 (accepted evs1)"
      using assms continued(2) continued(3) by (rule lims_heap_accepted)
    then show ?thesis
      using Cons.IH [OF continued(4)] continued(5) by simp
  qed
qed

lemma plan_known: "services svc = None \<Longrightarrow> (svc, lim, v) \<notin> set (plan ta services)"
  by (auto simp: plan_def service_plan_def limit_plan_def split: option.splits)

lemma update_services_trace:
  obtains r h evs tail where
    "svcs_run env ta services (sort (keys ta)) (heap s) = (r, h, evs)"
    "fst (update_services env (Some ta) services s) = r"
    "heap (snd (update_services env (Some ta) services s)) = h"
    "new_events s (snd (update_services env (Some ta) services s)) =
       Log DEBUG ''Updating TA limits on all services'' # evs @ tail"
    "tail = [] \<or> tail = [Log INFO ''Done updating TA limits on all services'']"
proof -
  obtain r h evs where run: "svcs_run env ta services (sort (keys ta)) (heap s) = (r, h, evs)"
    by (cases "svcs_run env ta services (sort (keys ta)) (heap s)")
  show ?thesis
  proof (cases r)
    case (Inl e)
    then show ?thesis
      using that [of r h evs "[]"] run
      by (simp add: update_services_run new_events_def)
  next
    case (Inr u)
    then show ?thesis
      using that [of r h evs "[Log INFO ''Done updating TA limits on all services'']"] run
      by (simp add: update_services_run new_events_def)
  qed
qed

lemma reconcile_trace: "\<exists>h evs. traces env ta services s h evs"
proof -
  obtain r h evs tail where
    run: "svcs_run env ta services (sort (keys ta)) (heap s) = (r, h, evs)" and
    r: "outcome env ta services s = r" and
    hp: "store env ta services s = h" and
    new: "emitted env ta services s = Log DEBUG ''Updating TA limits on all services'' # evs @ tail" and
    tail: "tail = [] \<or> tail = [Log INFO ''Done updating TA limits on all services'']"
    by (rule update_services_trace)
  have 1: "SetTaLimit svc lim v exc \<in> set (emitted env ta services s) \<longleftrightarrow>
           SetTaLimit svc lim v exc \<in> set evs" for svc lim v exc
    unfolding new using tail by auto
  have 2: "Log WARNING m \<in> set (emitted env ta services s) \<longleftrightarrow> Log WARNING m \<in> set evs" for m
    unfolding new using tail by auto
  have 3: "Log CRITICAL m \<in> set (emitted env ta services s) \<longleftrightarrow> Log CRITICAL m \<in> set evs" for m
    unfolding new using tail by auto
  have 4: "calls (emitted env ta services s) = calls evs"
    unfolding new using tail by auto
  have 5: "accepted (emitted env ta services s) = accepted evs"
    unfolding new using tail by auto
  have "traces env ta services s h evs"
    unfolding traces_def using run r hp 1 2 3 4 5 by simp
  then show ?thesis by blast
qed

lemma tracesD:
  assumes "traces env ta services s h evs"
  shows "svcs_run env ta services (sort (keys ta)) (heap s) = (outcome env ta services s, h, evs)"
    and "SetTaLimit svc lim v exc \<in> set (emitted env ta services s) \<longleftrightarrow>
         SetTaLimit svc lim v exc \<in> set evs"
    and "Log WARNING m \<in> set (emitted env ta services s) \<longleftrightarrow> Log WARNING m \<in> set evs"
    and "Log CRITICAL m \<in> set (emitted env ta services s) \<longleftrightarrow> Log CRITICAL m \<in> set evs"
    and "calls (emitted env ta services s) = calls evs"
    and "accepted (emitted env ta services s) = accepted evs"
    and "store env ta services s = h"
  using assms unfolding traces_def by simp_all

lemma reconcile_store:
  "store env ta services s = applied env services (heap s) (calls (emitted env ta services s))"
proof -
  obtain h evs where tr: "traces env ta services s h evs"
    using reconcile_trace by blast
  from svcs_heap [OF tracesD(1) [OF tr]] show ?thesis
    unfolding tracesD(5) [OF tr] tracesD(7) [OF tr] .
qed

lemma reconcile_store_all:
  assumes "outcome env ta services s = Inr ()"
  shows "store env ta services s = applied env services (heap s) (plan ta services)"
proof -
  obtain h evs where tr: "traces env ta services s h evs"
    using reconcile_trace by blast
  have run: "svcs_run env ta services (sort (keys ta)) (heap s) = (Inr (), h, evs)"
    using tracesD(1) [OF tr] assms by simp
  have "calls evs = plan ta services"
    using svcs_calls_all [OF run] by (simp add: plan_def)
  then show ?thesis
    using svcs_heap [OF run] tracesD(7) [OF tr] by simp
qed

lemma reconcile_store_accepted:
  assumes "\<forall>obj lim v e. fst (set_ta_limit env obj lim v) = Some e \<longrightarrow>
             snd (set_ta_limit env obj lim v) = obj"
  shows "store env ta services s =
           applied env services (heap s) (accepted (emitted env ta services s))"
proof -
  obtain h evs where tr: "traces env ta services s h evs"
    using reconcile_trace by blast
  from svcs_heap_accepted [OF assms tracesD(1) [OF tr]] show ?thesis
    unfolding tracesD(6) [OF tr] tracesD(7) [OF tr] .
qed

text \<open>
  C10: the only exceptions that leave \<^verbatim>\<open>_update_services\<close> (handed a dictionary) are
  those a call of \<^verbatim>\<open>_set_ta_limit\<close> raised and that are not a \<^verbatim>\<open>ValueError\<close>; every
  \<^verbatim>\<open>ValueError\<close> such a call raises, whatever its message, is answered by the
  unknown-limit warning, and every other exception it raises leaves the method. Each
  recorded call ended the way the method of the service object decides.
\<close>

theorem value_errors_swallowed:
  "(\<forall>e. outcome env ta services s = Inl e \<longrightarrow>
        \<not> is_ValueError e \<and>
        (\<exists>svc lim v. SetTaLimit svc lim v (Some e) \<in> set (emitted env ta services s))) \<and>
   (\<forall>svc lim v m.
      SetTaLimit svc lim v (Some (ValueError m)) \<in> set (emitted env ta services s) \<longrightarrow>
      Log WARNING (unknown_limit_msg lim svc) \<in> set (emitted env ta services s)) \<and>
   (\<forall>svc lim v e.
      SetTaLimit svc lim v (Some e) \<in> set (emitted env ta services s) \<and> \<not> is_ValueError e \<longrightarrow>
      outcome env ta services s = Inl e) \<and>
   (\<forall>svc lim v exc.
      SetTaLimit svc lim v exc \<in> set (emitted env ta services s) \<longrightarrow>
      (\<exists>obj. fst (set_ta_limit env obj lim v) = exc))"
proof -
  obtain h evs where tr: "traces env ta services s h evs"
    using reconcile_trace by blast
  note run = tracesD(1) [OF tr] and call = tracesD(2) [OF tr] and warn = tracesD(3) [OF tr]
  show ?thesis
  proof (intro conjI allI impI)
    fix e
    assume "outcome env ta services s = Inl e"
    then have "svcs_run env ta services (sort (keys ta)) (heap s) = (Inl e, h, evs)"
      using run by simp
    from svcs_raise [OF this] have "\<not> is_ValueError e"
      and "\<exists>svc lim v. SetTaLimit svc lim v (Some e) \<in> set evs"
      by simp_all
    then show "\<not> is_ValueError e"
      and "\<exists>svc lim v. SetTaLimit svc lim v (Some e) \<in> set (emitted env ta services s)"
      unfolding call by blast+
  next
    fix svc lim v m
    assume "SetTaLimit svc lim v (Some (ValueError m)) \<in> set (emitted env ta services s)"
    then have "SetTaLimit svc lim v (Some (ValueError m)) \<in> set evs"
      unfolding call .
    from svcs_warning [OF run this]
    show "Log WARNING (unknown_limit_msg lim svc) \<in> set (emitted env ta services s)"
      unfolding warn by simp
  next
    fix svc lim v e
    assume "SetTaLimit svc lim v (Some e) \<in> set (emitted env ta services s) \<and> \<not> is_ValueError e"
    then have "SetTaLimit svc lim v (Some e) \<in> set evs" "\<not> is_ValueError e"
      unfolding call by blast+
    from svcs_propagate [OF run this] show "outcome env ta services s = Inl e" .
  next
    fix svc lim v exc
    assume "SetTaLimit svc lim v exc \<in> set (emitted env ta services s)"
    then have "SetTaLimit svc lim v exc \<in> set evs"
      unfolding call .
    from svcs_outcome [OF run this] show "\<exists>obj. fst (set_ta_limit env obj lim v) = exc" .
  qed
qed

lemma reconcile_completes:
  assumes "\<forall>svc lim v e. SetTaLimit svc lim v (Some e) \<in> set (emitted env ta services s) \<longrightarrow>
             is_ValueError e"
  shows "outcome env ta services s = Inr ()"
proof (cases "outcome env ta services s")
  case (Inl e)
  obtain h evs where tr: "traces env ta services s h evs"
    using reconcile_trace by blast
  have "svcs_run env ta services (sort (keys ta)) (heap s) = (Inl e, h, evs)"
    using tracesD(1) [OF tr] Inl by simp
  from svcs_raise [OF this] obtain svc lim v where
    "\<not> is_ValueError e" "SetTaLimit svc lim v (Some e) \<in> set evs"
    by auto
  then show ?thesis
    using assms tracesD(2) [OF tr] by blast
next
  case (Inr u)
  then show ?thesis by simp
qed

lemma reconcile_completes_env:
  assumes "\<forall>obj lim v e. fst (set_ta_limit env obj lim v) = Some e \<longrightarrow> is_ValueError e"
  shows "outcome env ta services s = Inr ()"
proof (rule reconcile_completes, intro allI impI)
  fix svc lim v e
  assume c: "SetTaLimit svc lim v (Some e) \<in> set (emitted env ta services s)"
  obtain h evs where tr: "traces env ta services s h evs"
    using reconcile_trace by blast
  have "SetTaLimit svc lim v (Some e) \<in> set evs"
    using c unfolding tracesD(2) [OF tr] .
  from svcs_outcome [OF tracesD(1) [OF tr] this] obtain obj
    where "fst (set_ta_limit env obj lim v) = Some e"
    by blast
  with assms show "is_ValueError e"
    by blast
qed

lemma reconcile_attempts_all:
  assumes "outcome env ta services s = Inr ()"
    and "map_of ta svc = Some l" and "services svc = Some a" and "map_of l lim = Some v"
  shows "\<exists>exc. SetTaLimit svc lim v exc \<in> set (emitted env ta services s)"
proof -
  obtain h evs where tr: "traces env ta services s h evs"
    using reconcile_trace by blast
  have run: "svcs_run env ta services (sort (keys ta)) (heap s) = (Inr (), h, evs)"
    using tracesD(1) [OF tr] assms(1) by simp
  have "svc \<in> set (sort (keys ta))"
    using assms(2) by (simp add: map_of_in_keys)
  from svcs_attempted [OF run this assms(2,3,4)] show ?thesis
    unfolding tracesD(2) [OF tr] .
qed

text \<open>
  C6: for a service name of the map that the registry does not hold, no call of
  \<^verbatim>\<open>_set_ta_limit\<close> is made under this name; an exception that leaves the method was
  raised by a call on a service of the registry, and there is none when the services
  fail with \<^verbatim>\<open>ValueError\<close> only, as their contract says; and when the method returns,
  the critical record naming the service has been logged and every limit of every
  service of the registry has been handed to that service. The updates planned hold
  none for this name. The store the method leaves is the initial one in which each call
  made has replaced the receiving object by the one \<^verbatim>\<open>_set_ta_limit\<close> left, in the
  order of the calls; when the method returns, these are all the updates planned: for
  each service of the map that the registry holds, each of its limits.
\<close>

theorem unknown_service_skipped:
  assumes "svc \<in> set (keys ta)" and "services svc = None"
  shows "(\<forall>lim v exc. SetTaLimit svc lim v exc \<notin> set (emitted env ta services s)) \<and>
         (\<forall>e. outcome env ta services s = Inl e \<longrightarrow>
              (\<exists>svc' lim v. services svc' \<noteq> None \<and>
                 SetTaLimit svc' lim v (Some e) \<in> set (emitted env ta services s))) \<and>
         ((\<forall>obj lim v e. fst (set_ta_limit env obj lim v) = Some e \<longrightarrow> is_ValueError e) \<longrightarrow>
            outcome env ta services s = Inr ()) \<and>
         (outcome env ta services s = Inr () \<longrightarrow>
            Log CRITICAL (unknown_service_msg svc) \<in> set (emitted env ta services s) \<and>
            (\<forall>svc' l a lim v.
               map_of ta svc' = Some l \<and> services svc' = Some a \<and> map_of l lim = Some v \<longrightarrow>
               (\<exists>exc. SetTaLimit svc' lim v exc \<in> set (emitted env ta services s)))) \<and>
         (\<forall>lim v. (svc, lim, v) \<notin> set (plan ta services)) \<and>
         store env ta services s =
           applied env services (heap s) (calls (emitted env ta services s)) \<and>
         (outcome env ta services s = Inr () \<longrightarrow>
            store env ta services s = applied env services (heap s) (plan ta services))"
proof -
  obtain h evs where tr: "traces env ta services s h evs"
    using reconcile_trace by blast
  note run = tracesD(1) [OF tr] and call = tracesD(2) [OF tr] and crit = tracesD(4) [OF tr]
  show ?thesis
  proof (intro conjI allI impI)
    assume "\<forall>obj lim v e. fst (set_ta_limit env obj lim v) = Some e \<longrightarrow> is_ValueError e"
    then show "outcome env ta services s = Inr ()"
      by (rule reconcile_completes_env)
  next
    fix lim v exc
    show "SetTaLimit svc lim v exc \<notin> set (emitted env ta services s)"
      unfolding call using svcs_calls_known [OF run, of svc lim v exc] assms(2) by blast
  next
    fix e
    assume "outcome env ta services s = Inl e"
    then have "svcs_run env ta services (sort (keys ta)) (heap s) = (Inl e, h, evs)"
      using run by simp
    from svcs_raise [OF this] obtain svc' lim v where
      c: "SetTaLimit svc' lim v (Some e) \<in> set evs"
      by auto
    from svcs_calls_known [OF run c] c
    show "\<exists>svc' lim v. services svc' \<noteq> None \<and>
            SetTaLimit svc' lim v (Some e) \<in> set (emitted env ta services s)"
      unfolding call by blast
  next
    assume "outcome env ta services s = Inr ()"
    then have "svcs_run env ta services (sort (keys ta)) (heap s) = (Inr (), h, evs)"
      using run by simp
    from svcs_critical [OF this _ assms(2)] assms(1)
    show "Log CRITICAL (unknown_service_msg svc) \<in> set (emitted env ta services s)"
      unfolding crit by simp
  next
    fix svc' l a lim v
    assume "outcome env ta services s = Inr ()"
      and "map_of ta svc' = Some l \<and> services svc' = Some a \<and> map_of l lim = Some v"
    then show "\<exists>exc. SetTaLimit svc' lim v exc \<in> set (emitted env ta services s)"
      using reconcile_attempts_all [of env ta services s svc' l a lim v] by blast
  next
    fix lim v
    show "(svc, lim, v) \<notin> set (plan ta services)"
      using assms(2) by (rule plan_known)
  next
    show "store env ta services s =
            applied env services (heap s) (calls (emitted env ta services s))"
      by (rule reconcile_store)
  next
    assume "outcome env ta services s = Inr ()"
    then show "store env ta services s = applied env services (heap s) (plan ta services)"
      by (rule reconcile_store_all)
  qed
qed

text \<open>
  C7: when a call of \<^verbatim>\<open>_set_ta_limit\<close> raises a \<^verbatim>\<open>ValueError\<close>, the warning naming the
  limit and the service is logged and this exception does not leave the method; when
  every exception raised by the calls is a \<^verbatim>\<open>ValueError\<close> (in particular when the
  services fail with \<^verbatim>\<open>ValueError\<close> only) the method returns; and when it returns,
  every limit of every service of the registry has been handed to that service, and a
  limit of such a service that its method rejects whatever the object has its warning
  logged. The store the method leaves is the initial one in which each call made has
  replaced the receiving object by the one \<^verbatim>\<open>_set_ta_limit\<close> left, in the order of
  the calls; when a call that raises leaves its object as it was, this is the store in
  which the calls that returned have been applied and no other; and when the method
  returns, the calls made are all the updates planned.
\<close>

theorem unknown_limit_skipped:
  "(\<forall>svc lim v e.
      SetTaLimit svc lim v (Some e) \<in> set (emitted env ta services s) \<and> is_ValueError e \<longrightarrow>
      Log WARNING (unknown_limit_msg lim svc) \<in> set (emitted env ta services s) \<and>
      outcome env ta services s \<noteq> Inl e) \<and>
   ((\<forall>svc' lim' v' e'. SetTaLimit svc' lim' v' (Some e') \<in> set (emitted env ta services s) \<longrightarrow>
        is_ValueError e') \<longrightarrow>
    outcome env ta services s = Inr ()) \<and>
   ((\<forall>obj lim' v' e'. fst (set_ta_limit env obj lim' v') = Some e' \<longrightarrow> is_ValueError e') \<longrightarrow>
    outcome env ta services s = Inr ()) \<and>
   (outcome env ta services s = Inr () \<longrightarrow>
      (\<forall>svc' l a lim' v'.
         map_of ta svc' = Some l \<and> services svc' = Some a \<and> map_of l lim' = Some v' \<longrightarrow>
         (\<exists>exc. SetTaLimit svc' lim' v' exc \<in> set (emitted env ta services s)))) \<and>
   (outcome env ta services s = Inr () \<longrightarrow>
      (\<forall>svc l a lim v.
         map_of ta svc = Some l \<and> services svc = Some a \<and> map_of l lim = Some v \<and>
         (\<forall>obj. fst (set_ta_limit env obj lim v) \<noteq> None) \<longrightarrow>
         Log WARNING (unknown_limit_msg lim svc) \<in> set (emitted env ta services s))) \<and>
   store env ta services s =
     applied env services (heap s) (calls (emitted env ta services s)) \<and>
   ((\<forall>obj lim v e. fst (set_ta_limit env obj lim v) = Some e \<longrightarrow>
        snd (set_ta_limit env obj lim v) = obj) \<longrightarrow>
    store env ta services s =
      applied env services (heap s) (accepted (emitted env ta services s))) \<and>
   (outcome env ta services s = Inr () \<longrightarrow>
      store env ta services s = applied env services (heap s) (plan ta services))"
proof -
  obtain h evs where tr: "traces env ta services s h evs"
    using reconcile_trace by blast
  note run = tracesD(1) [OF tr] and call = tracesD(2) [OF tr] and warn = tracesD(3) [OF tr]
  have a: "Log WARNING (unknown_limit_msg lim svc) \<in> set (emitted env ta services s) \<and>
           outcome env ta services s \<noteq> Inl e"
    if "SetTaLimit svc lim v (Some e) \<in> set (emitted env ta services s) \<and> is_ValueError e"
    for svc lim v e
  proof
    have c: "SetTaLimit svc lim v (Some e) \<in> set evs" and ve: "is_ValueError e"
      using that unfolding call by simp_all
    from svcs_warning [OF run c ve]
    show "Log WARNING (unknown_limit_msg lim svc) \<in> set (emitted env ta services s)"
      unfolding warn .
    show "outcome env ta services s \<noteq> Inl e"
    proof
      assume "outcome env ta services s = Inl e"
      then have "svcs_run env ta services (sort (keys ta)) (heap s) = (Inl e, h, evs)"
        using run by simp
      from svcs_raise [OF this] show False
        using ve by simp
    qed
  qed
  have b: "Log WARNING (unknown_limit_msg lim svc) \<in> set (emitted env ta services s)"
    if ok: "outcome env ta services s = Inr ()"
      and k: "map_of ta svc = Some l \<and> services svc = Some a \<and> map_of l lim = Some v \<and>
              (\<forall>obj. fst (set_ta_limit env obj lim v) \<noteq> None)"
    for svc l a lim v
  proof -
    from k have k1: "map_of ta svc = Some l" and k2: "services svc = Some a"
      and k3: "map_of l lim = Some v" and k4: "\<forall>obj. fst (set_ta_limit env obj lim v) \<noteq> None"
      by simp_all
    from reconcile_attempts_all [OF ok k1 k2 k3] obtain exc
      where c: "SetTaLimit svc lim v exc \<in> set evs"
      unfolding call by blast
    from svcs_outcome [OF run c] k4 obtain e where e: "exc = Some e"
      by (cases exc) auto
    have "is_ValueError e"
    proof (rule ccontr)
      assume "\<not> is_ValueError e"
      from svcs_propagate [OF run c [unfolded e] this] ok show False
        by simp
    qed
    from svcs_warning [OF run c [unfolded e] this] show ?thesis
      unfolding warn .
  qed
  show ?thesis
  proof (intro conjI allI impI)
    fix svc lim v e
    assume "SetTaLimit svc lim v (Some e) \<in> set (emitted env ta services s) \<and> is_ValueError e"
    from a [OF this]
    show "Log WARNING (unknown_limit_msg lim svc) \<in> set (emitted env ta services s)"
      and "outcome env ta services s \<noteq> Inl e"
      by simp_all
  next
    assume "\<forall>svc' lim' v' e'. SetTaLimit svc' lim' v' (Some e') \<in> set (emitted env ta services s) \<longrightarrow>
              is_ValueError e'"
    then show "outcome env ta services s = Inr ()"
      by (rule reconcile_completes)
  next
    assume "\<forall>obj lim' v' e'. fst (set_ta_limit env obj lim' v') = Some e' \<longrightarrow> is_ValueError e'"
    then show "outcome env ta services s = Inr ()"
      by (rule reconcile_completes_env)
  next
    fix svc' l a lim' v'
    assume "outcome env ta services s = Inr ()"
      and "map_of ta svc' = Some l \<and> services svc' = Some a \<and> map_of l lim' = Some v'"
    then show "\<exists>exc. SetTaLimit svc' lim' v' exc \<in> set (emitted env ta services s)"
      using reconcile_attempts_all [of env ta services s svc' l a lim' v'] by blast
  next
    fix svc l a lim v
    assume "outcome env ta services s = Inr ()"
      and "map_of ta svc = Some l \<and> services svc = Some a \<and> map_of l lim = Some v \<and>
           (\<forall>obj. fst (set_ta_limit env obj lim v) \<noteq> None)"
    then show "Log WARNING (unknown_limit_msg lim svc) \<in> set (emitted env ta services s)"
      by (rule b)
  next
    show "store env ta services s =
            applied env services (heap s) (calls (emitted env ta services s))"
      by (rule reconcile_store)
  next
    assume "\<forall>obj lim v e. fst (set_ta_limit env obj lim v) = Some e \<longrightarrow>
              snd (set_ta_limit env obj lim v) = obj"
    then show "store env ta services s =
                 applied env services (heap s) (accepted (emitted env ta services s))"
      by (rule reconcile_store_accepted)
  next
    assume "outcome env ta services s = Inr ()"
    then show "store env ta services s = applied env services (heap s) (plan ta services)"
      by (rule reconcile_store_all)
  qed
qed













lemmas ex_run_simps =
  update_services_run new_events_def ex_svc_env_def ex_svc_state_def ex_registry_def keys_def
  set_advisory_limit_def

lemma ex_foo_run:
  "outcome (ex_svc_env set_advisory_limit) ex_foo ex_registry ex_svc_state = Inr ()"
  "emitted (ex_svc_env set_advisory_limit) ex_foo ex_registry ex_svc_state =
     [Log DEBUG ''Updating TA limits on all services'',
      SetTaLimit ''EC2'' ''Instances'' 20 None,
      Log CRITICAL (unknown_service_msg ''Foo''),
      Log INFO ''Done updating TA limits on all services'']"
  "ta_limits (heap (snd (update_services (ex_svc_env set_advisory_limit) (Some ex_foo)
      ex_registry ex_svc_state)) 0) = [(''Instances'', 20)]"
  by (simp_all add: ex_run_simps ex_foo_def)

lemma ex_bogus_run:
  "outcome (ex_svc_env set_advisory_limit) ex_bogus ex_registry ex_svc_state = Inr ()"
  "emitted (ex_svc_env set_advisory_limit) ex_bogus ex_registry ex_svc_state =
     [Log DEBUG ''Updating TA limits on all services'',
      SetTaLimit ''EC2'' ''Bogus'' 1 (Some (ValueError ''service has no limit Bogus'')),
      Log WARNING (unknown_limit_msg ''Bogus'' ''EC2''),
      SetTaLimit ''EC2'' ''Instances'' 20 None,
      SetTaLimit ''EC2'' ''Volumes'' 5 None,
      Log INFO ''Done updating TA limits on all services'']"
  "ta_limits (heap (snd (update_services (ex_svc_env set_advisory_limit) (Some ex_bogus)
      ex_registry ex_svc_state)) 0) = [(''Instances'', 20), (''Volumes'', 5)]"
  by (simp_all add: ex_run_simps ex_bogus_def)


lemma ex_negative_run:
  "emitted (ex_svc_env strict_set_ta_limit) ex_negative ex_registry ex_svc_state =
     [Log DEBUG ''Updating TA limits on all services'',
      SetTaLimit ''EC2'' ''Instances'' (- 1) (Some (ValueError ''limit must not be negative'')),
      Log WARNING (unknown_limit_msg ''Instances'' ''EC2''),
      SetTaLimit ''EC2'' ''Volumes'' 5 None,
      Log INFO ''Done updating TA limits on all services'']"
  by (simp add: ex_run_simps strict_set_ta_limit_def ex_negative_def)

lemma ex_bogus_strict_run:
  "emitted (ex_svc_env strict_set_ta_limit) ex_bogus ex_registry ex_svc_state =
     [Log DEBUG ''Updating TA limits on all services'',
      SetTaLimit ''EC2'' ''Bogus'' 1 (Some (OtherError ''no such limit''))]"
  by (simp add: ex_run_simps strict_set_ta_limit_def ex_bogus_def)

lemma ex_plans:
  "plan ex_foo ex_registry = [(''EC2'', ''Instances'', 20)]"
  "plan ex_bogus ex_registry =
     [(''EC2'', ''Bogus'', 1), (''EC2'', ''Instances'', 20), (''EC2'', ''Volumes'', 5)]"
  by (simp_all add: plan_def service_plan_def limit_plan_def keys_def ex_foo_def ex_bogus_def
      ex_registry_def)

lemma ex_applied:
  "applied (ex_svc_env set_advisory_limit) ex_registry (heap ex_svc_state)
     [(''EC2'', ''Instances'', 20)] =
   (heap ex_svc_state)
     (0 := \<lparr>limit_names = [''Instances'', ''Volumes''], ta_limits = [(''Instances'', 20)]\<rparr>)"
  "applied (ex_svc_env set_advisory_limit) ex_registry (heap ex_svc_state)
     [(''EC2'', ''Bogus'', 1), (''EC2'', ''Instances'', 20), (''EC2'', ''Volumes'', 5)] =
   (heap ex_svc_state)
     (0 := \<lparr>limit_names = [''Instances'', ''Volumes''],
            ta_limits = [(''Instances'', 20), (''Volumes'', 5)]\<rparr>)"
  by (simp_all add: apply_call_def ex_svc_env_def ex_registry_def ex_svc_state_def
      set_advisory_limit_def)

theorem unknown_service_skipped_witness:
  "(\<forall>lim v exc. SetTaLimit ''Foo'' lim v exc
      \<notin> set (emitted (ex_svc_env set_advisory_limit) ex_foo ex_registry ex_svc_state)) \<and>
   Log CRITICAL (unknown_service_msg ''Foo'')
     \<in> set (emitted (ex_svc_env set_advisory_limit) ex_foo ex_registry ex_svc_state) \<and>
   (\<exists>exc. SetTaLimit ''EC2'' ''Instances'' 20 exc
      \<in> set (emitted (ex_svc_env set_advisory_limit) ex_foo ex_registry ex_svc_state)) \<and>
   outcome (ex_svc_env set_advisory_limit) ex_foo ex_registry ex_svc_state = Inr () \<and>
   store (ex_svc_env set_advisory_limit) ex_foo ex_registry ex_svc_state =
     (heap ex_svc_state)
       (0 := \<lparr>limit_names = [''Instances'', ''Volumes''], ta_limits = [(''Instances'', 20)]\<rparr>)"
proof -
  have 1: "''Foo'' \<in> set (keys ex_foo)"
    by (simp add: ex_foo_def keys_def)
  have 2: "ex_registry ''Foo'' = None"
    by (simp add: ex_registry_def)
  have 3: "map_of ex_foo ''EC2'' = Some [(''Instances'', 20)] \<and> ex_registry ''EC2'' = Some 0 \<and>
           map_of [(''Instances'', 20 :: int)] ''Instances'' = Some 20"
    by (simp add: ex_foo_def ex_registry_def)
  have 4: "\<forall>obj lim v e. fst (set_ta_limit (ex_svc_env set_advisory_limit) obj lim v) = Some e \<longrightarrow>
             is_ValueError e"
    by (auto simp: ex_svc_env_def set_advisory_limit_def split: if_splits)
  note t = unknown_service_skipped [where svc = "''Foo''" and ta = ex_foo
      and services = ex_registry and env = "ex_svc_env set_advisory_limit" and s = ex_svc_state,
      OF 1 2]
  have a: "\<forall>lim v exc. SetTaLimit ''Foo'' lim v exc
      \<notin> set (emitted (ex_svc_env set_advisory_limit) ex_foo ex_registry ex_svc_state)"
    using t by (rule conjunct1)
  have o: "outcome (ex_svc_env set_advisory_limit) ex_foo ex_registry ex_svc_state = Inr ()"
    using t 4 by blast
  have b: "Log CRITICAL (unknown_service_msg ''Foo'')
      \<in> set (emitted (ex_svc_env set_advisory_limit) ex_foo ex_registry ex_svc_state) \<and>
    (\<forall>svc' l a lim v.
        map_of ex_foo svc' = Some l \<and> ex_registry svc' = Some a \<and> map_of l lim = Some v \<longrightarrow>
        (\<exists>exc. SetTaLimit svc' lim v exc
           \<in> set (emitted (ex_svc_env set_advisory_limit) ex_foo ex_registry ex_svc_state)))"
    using t o by blast
  then have c: "\<exists>exc. SetTaLimit ''EC2'' ''Instances'' 20 exc
      \<in> set (emitted (ex_svc_env set_advisory_limit) ex_foo ex_registry ex_svc_state)"
    using 3 by blast
  have "store (ex_svc_env set_advisory_limit) ex_foo ex_registry ex_svc_state =
          applied (ex_svc_env set_advisory_limit) ex_registry (heap ex_svc_state)
            (plan ex_foo ex_registry)"
    using t o by blast
  then have d: "store (ex_svc_env set_advisory_limit) ex_foo ex_registry ex_svc_state =
     (heap ex_svc_state)
       (0 := \<lparr>limit_names = [''Instances'', ''Volumes''], ta_limits = [(''Instances'', 20)]\<rparr>)"
    unfolding ex_plans ex_applied .
  show ?thesis
    using a b c o d by (intro conjI) blast+
qed

theorem unknown_limit_skipped_witness:
  "Log WARNING (unknown_limit_msg ''Bogus'' ''EC2'')
     \<in> set (emitted (ex_svc_env set_advisory_limit) ex_bogus ex_registry ex_svc_state) \<and>
   outcome (ex_svc_env set_advisory_limit) ex_bogus ex_registry ex_svc_state = Inr () \<and>
   (\<exists>exc. SetTaLimit ''EC2'' ''Instances'' 20 exc
      \<in> set (emitted (ex_svc_env set_advisory_limit) ex_bogus ex_registry ex_svc_state)) \<and>
   (\<exists>exc. SetTaLimit ''EC2'' ''Volumes'' 5 exc
      \<in> set (emitted (ex_svc_env set_advisory_limit) ex_bogus ex_registry ex_svc_state)) \<and>
   store (ex_svc_env set_advisory_limit) ex_bogus ex_registry ex_svc_state =
     (heap ex_svc_state)
       (0 := \<lparr>limit_names = [''Instances'', ''Volumes''],
              ta_limits = [(''Instances'', 20), (''Volumes'', 5)]\<rparr>)"
proof -
  let ?new = "emitted (ex_svc_env set_advisory_limit) ex_bogus ex_registry ex_svc_state"
  let ?out = "outcome (ex_svc_env set_advisory_limit) ex_bogus ex_registry ex_svc_state"
  have 2: "SetTaLimit ''EC2'' ''Bogus'' 1 (Some (ValueError ''service has no limit Bogus''))
             \<in> set ?new \<and> is_ValueError (ValueError ''service has no limit Bogus'')"
    by (simp add: ex_bogus_run(2))
  have 3: "\<forall>obj lim' v' e'.
             fst (set_ta_limit (ex_svc_env set_advisory_limit) obj lim' v') = Some e' \<longrightarrow>
             is_ValueError e'"
    by (auto simp: ex_svc_env_def set_advisory_limit_def split: if_splits)
  have 4: "map_of ex_bogus ''EC2'' = Some [(''Volumes'', 5), (''Bogus'', 1), (''Instances'', 20)]"
    "ex_registry ''EC2'' = Some 0"
    "map_of [(''Volumes'', 5), (''Bogus'', 1), (''Instances'', 20 :: int)] ''Instances'' = Some 20"
    "map_of [(''Volumes'', 5), (''Bogus'', 1), (''Instances'', 20 :: int)] ''Volumes'' = Some 5"
    by (simp_all add: ex_bogus_def ex_registry_def)
  note t = unknown_limit_skipped [where env = "ex_svc_env set_advisory_limit" and ta = ex_bogus
      and services = ex_registry and s = ex_svc_state]
  have a: "Log WARNING (unknown_limit_msg ''Bogus'' ''EC2'') \<in> set ?new"
    using t 2 by blast
  have b: "?out = Inr ()"
    using t 3 by blast
  have all: "\<forall>svc' l a lim' v'.
               map_of ex_bogus svc' = Some l \<and> ex_registry svc' = Some a \<and> map_of l lim' = Some v' \<longrightarrow>
               (\<exists>exc. SetTaLimit svc' lim' v' exc \<in> set ?new)"
    using t b by blast
  have c: "\<exists>exc. SetTaLimit ''EC2'' ''Instances'' 20 exc \<in> set ?new"
    using all 4(1,2,3) by blast
  have d: "\<exists>exc. SetTaLimit ''EC2'' ''Volumes'' 5 exc \<in> set ?new"
    using all 4(1,2,4) by blast
  have "store (ex_svc_env set_advisory_limit) ex_bogus ex_registry ex_svc_state =
          applied (ex_svc_env set_advisory_limit) ex_registry (heap ex_svc_state)
            (plan ex_bogus ex_registry)"
    using t b by blast
  then have e: "store (ex_svc_env set_advisory_limit) ex_bogus ex_registry ex_svc_state =
     (heap ex_svc_state)
       (0 := \<lparr>limit_names = [''Instances'', ''Volumes''],
              ta_limits = [(''Instances'', 20), (''Volumes'', 5)]\<rparr>)"
    unfolding ex_plans ex_applied .
  show ?thesis
    using a b c d e by (intro conjI)
qed


theorem value_errors_swallowed_witness:
  "Log WARNING (unknown_limit_msg ''Instances'' ''EC2'')
     \<in> set (emitted (ex_svc_env strict_set_ta_limit) ex_negative ex_registry ex_svc_state) \<and>
   outcome (ex_svc_env strict_set_ta_limit) ex_bogus ex_registry ex_svc_state =
     Inl (OtherError ''no such limit'')"
proof -
  have 1: "SetTaLimit ''EC2'' ''Instances'' (- 1) (Some (ValueError ''limit must not be negative''))
             \<in> set (emitted (ex_svc_env strict_set_ta_limit) ex_negative ex_registry ex_svc_state)"
    by (simp add: ex_negative_run)
  have 2: "SetTaLimit ''EC2'' ''Bogus'' 1 (Some (OtherError ''no such limit''))
             \<in> set (emitted (ex_svc_env strict_set_ta_limit) ex_bogus ex_registry ex_svc_state) \<and>
           \<not> is_ValueError (OtherError ''no such limit'')"
    by (simp add: ex_bogus_strict_run)
  have a: "Log WARNING (unknown_limit_msg ''Instances'' ''EC2'')
     \<in> set (emitted (ex_svc_env strict_set_ta_limit) ex_negative ex_registry ex_svc_state)"
    using value_errors_swallowed [where env = "ex_svc_env strict_set_ta_limit"
        and ta = ex_negative and services = ex_registry and s = ex_svc_state] 1
    by blast
  have b: "outcome (ex_svc_env strict_set_ta_limit) ex_bogus ex_registry ex_svc_state =
     Inl (OtherError ''no such limit'')"
    using value_errors_swallowed [where env = "ex_svc_env strict_set_ta_limit"
        and ta = ex_bogus and services = ex_registry and s = ex_svc_state] 2
    by blast
  show ?thesis
    using a b by blast
qed

end
